theory Spec2Isabelle
  imports Main "HOL-Library.Multiset" "HOL-Library.Monad_Syntax"
begin


section \<open>Vectors with checked element access\<close>

text \<open>
  A \<open>std::vector<T>\<close> is a list. The source indexes vectors with \<open>operator[]\<close> through
  \<open>int\<close> variables; an index outside \<open>0 .. size() - 1\<close> is undefined behaviour in C++.
  Every element access of the model is therefore checked and yields \<open>None\<close> out of range, so
  that a result \<open>Some v\<close> says that the run never left the vector.

  The \<open>int\<close> index variables of the source are mathematical integers here. The index
  arithmetic of the source (\<open>2 * i + 2\<close>, \<open>n / 2 - 1\<close>, \<open>start + (end - start) / 2\<close>, \<open>j - gap\<close>)
  stays within 32 bits for every vector of fewer than \<open>2^30\<close> elements. The elements are the
  values of the stored \<open>int\<close>s; the sorting functions only compare and move them. C++
  division truncates towards zero; it is only applied to non-negative operands, where it
  agrees with \<open>div\<close>.
\<close>

definition in_bounds :: "'a list \<Rightarrow> int \<Rightarrow> bool" where
  "in_bounds v i \<longleftrightarrow> 0 \<le> i \<and> i < int (length v)"

text \<open>\<open>v[i]\<close> read.\<close>

definition at :: "'a list \<Rightarrow> int \<Rightarrow> 'a option" where
  "at v i = (if in_bounds v i then Some (v ! nat i) else None)"

text \<open>\<open>v[i] = x\<close>.\<close>

definition put :: "'a list \<Rightarrow> int \<Rightarrow> 'a \<Rightarrow> 'a list option" where
  "put v i x = (if in_bounds v i then Some (v[nat i := x]) else None)"

text \<open>\<open>std::swap(v[i], v[j])\<close>.\<close>

definition swap :: "'a list \<Rightarrow> int \<Rightarrow> int \<Rightarrow> 'a list option" where
  "swap v i j =
     (if in_bounds v i \<and> in_bounds v j
      then Some (v[nat i := v ! nat j, nat j := v ! nat i])
      else None)"

lemma at_SomeD: "at v i = Some x \<Longrightarrow> 0 \<le> i \<and> i < int (length v) \<and> x = v ! nat i"
  by (auto simp: at_def in_bounds_def split: if_splits)

lemma swap_SomeD:
  "swap v i j = Some v' \<Longrightarrow>
     0 \<le> i \<and> i < int (length v) \<and> 0 \<le> j \<and> j < int (length v) \<and>
     v' = v[nat i := v ! nat j, nat j := v ! nat i]"
  by (auto simp: swap_def in_bounds_def split: if_splits)

lemma swap_length: "swap v i j = Some v' \<Longrightarrow> length v' = length v"
  by (auto dest: swap_SomeD)

section \<open>The sorting functions\<close>

text \<open>
  Each sorting function of the source takes its \<open>std::vector<int>\<close> by value and returns
  \<open>void\<close>. The model of a sorting function returns the final contents of that local vector,
  or \<open>None\<close> if an access went out of range. Every loop is a recursive function over the
  loop variables and the vector.
\<close>

subsection \<open>\<open>insertion_sort\<close>\<close>

text \<open>The loop \<open>while (j > 0 && v[j - 1] > v[j]) { std::swap(v[j], v[j - 1]); --j; }\<close>.\<close>

function insertion_inner :: "int list \<Rightarrow> int \<Rightarrow> int list option" where
  "insertion_inner v j =
     (if j > 0 then do {
        a \<leftarrow> at v (j - 1);
        b \<leftarrow> at v j;
        if a > b then do {
          v' \<leftarrow> swap v j (j - 1);
          insertion_inner v' (j - 1)
        } else Some v
      } else Some v)"
  by pat_completeness auto
termination
  by (relation "measure (\<lambda>(v, j). nat j)") auto

declare insertion_inner.simps [simp del]

text \<open>The loop \<open>for (i = 1; i < n; ++i)\<close>, entered at \<open>i\<close>.\<close>

function insertion_outer :: "int list \<Rightarrow> int \<Rightarrow> int \<Rightarrow> int list option" where
  "insertion_outer v n i =
     (if i < n then do {
        v' \<leftarrow> insertion_inner v i;
        insertion_outer v' n (i + 1)
      } else Some v)"
  by pat_completeness auto
termination
  by (relation "measure (\<lambda>(v, n, i). nat (n - i))") auto

declare insertion_outer.simps [simp del]

definition insertion_sort :: "int list \<Rightarrow> int list option" where
  "insertion_sort v = (let n = int (length v) in insertion_outer v n 1)"

subsection \<open>\<open>selection_sort\<close>\<close>

text \<open>The loop \<open>for (j = i + 1; j < n; ++j) if (v[j] < v[min]) min = j;\<close>, returning \<open>min\<close>.\<close>

function selection_min :: "int list \<Rightarrow> int \<Rightarrow> int \<Rightarrow> int \<Rightarrow> int option" where
  "selection_min v n j mn =
     (if j < n then do {
        a \<leftarrow> at v j;
        b \<leftarrow> at v mn;
        selection_min v n (j + 1) (if a < b then j else mn)
      } else Some mn)"
  by pat_completeness auto
termination
  by (relation "measure (\<lambda>(v, n, j, mn). nat (n - j))") auto

declare selection_min.simps [simp del]

function selection_outer :: "int list \<Rightarrow> int \<Rightarrow> int \<Rightarrow> int list option" where
  "selection_outer v n i =
     (if i < n - 1 then do {
        mn \<leftarrow> selection_min v n (i + 1) i;
        v' \<leftarrow> (if mn \<noteq> i then swap v i mn else Some v);
        selection_outer v' n (i + 1)
      } else Some v)"
  by pat_completeness auto
termination
  by (relation "measure (\<lambda>(v, n, i). nat (n - i))") auto

declare selection_outer.simps [simp del]

definition selection_sort :: "int list \<Rightarrow> int list option" where
  "selection_sort v = (let n = int (length v) in selection_outer v n 0)"

subsection \<open>\<open>bubble_sort\<close>\<close>

text \<open>One pass \<open>for (i = 1; i < n; ++i)\<close>, entered at \<open>i\<close>; returns the vector and \<open>swapped\<close>.\<close>

function bubble_pass :: "int list \<Rightarrow> int \<Rightarrow> int \<Rightarrow> bool \<Rightarrow> (int list \<times> bool) option" where
  "bubble_pass v n i swapped =
     (if i < n then do {
        a \<leftarrow> at v (i - 1);
        b \<leftarrow> at v i;
        if a > b then do {
          v' \<leftarrow> swap v (i - 1) i;
          bubble_pass v' n (i + 1) True
        } else bubble_pass v n (i + 1) swapped
      } else Some (v, swapped))"
  by pat_completeness auto
termination
  by (relation "measure (\<lambda>(v, n, i, swapped). nat (n - i))") auto

declare bubble_pass.simps [simp del]

text \<open>
  The number of inversions of a vector: the measure that makes the loop
  \<open>while (swapped)\<close> terminate, since every swap of a pass removes one inversion.
\<close>

fun inversions :: "int list \<Rightarrow> nat" where
  "inversions [] = 0"
| "inversions (x # xs) = length (filter (\<lambda>y. y < x) xs) + inversions xs"

lemma length_filter_mset_eq:
  "mset xs = mset ys \<Longrightarrow> length (filter P xs) = length (filter P ys)"
  by (metis mset_filter size_mset)

lemma inversions_swap_adjacent:
  "Suc k < length v \<Longrightarrow> v ! Suc k < v ! k \<Longrightarrow>
     Suc (inversions (v[k := v ! Suc k, Suc k := v ! k])) = inversions v"
proof (induction v arbitrary: k)
  case Nil
  then show ?case by simp
next
  case (Cons x xs)
  show ?case
  proof (cases k)
    case 0
    then obtain y ys where xs: "xs = y # ys" using Cons.prems by (cases xs) auto
    with 0 Cons.prems show ?thesis by auto
  next
    case (Suc k')
    let ?xs' = "xs[k' := xs ! Suc k', Suc k' := xs ! k']"
    have "mset ?xs' = mset xs" using Cons.prems Suc by (simp add: mset_swap)
    then have "length (filter (\<lambda>y. y < x) ?xs') = length (filter (\<lambda>y. y < x) xs)"
      by (rule length_filter_mset_eq)
    moreover have "Suc (inversions ?xs') = inversions xs"
      using Cons.prems Suc by (intro Cons.IH) auto
    ultimately show ?thesis using Suc by simp
  qed
qed

lemma bubble_pass_inversions:
  "bubble_pass v n i s = Some (v', s') \<Longrightarrow> 1 \<le> i \<Longrightarrow>
     inversions v' \<le> inversions v \<and> (s' \<longrightarrow> s \<or> inversions v' < inversions v)"
proof (induction v n i s rule: bubble_pass.induct)
  case (1 v n i swapped)
  show ?case
  proof (cases "i < n")
    case False
    then show ?thesis using "1.prems" by (simp add: bubble_pass.simps)
  next
    case True
    then obtain a b where ab: "at v (i - 1) = Some a" "at v i = Some b"
      using "1.prems" by (subst (asm) bubble_pass.simps) (auto split: Option.bind_splits)
    show ?thesis
    proof (cases "b < a")
      case False
      then have "bubble_pass v n (i + 1) swapped = Some (v', s')"
        using "1.prems" True ab by (subst (asm) bubble_pass.simps) simp
      then show ?thesis using "1.IH"(2)[OF True ab] False "1.prems" by simp
    next
      case lt: True
      then obtain w where w: "swap v (i - 1) i = Some w" "bubble_pass w n (i + 1) True = Some (v', s')"
        using "1.prems" True ab by (subst (asm) bubble_pass.simps) (auto split: Option.bind_splits)
      have IH: "inversions v' \<le> inversions w" using "1.IH"(1)[OF True ab lt w] "1.prems" by simp
      define k where "k = nat (i - 1)"
      have nk: "nat (i - 1) = k" by (simp add: k_def)
      have ni: "nat i = Suc k" using "1.prems" by (simp add: k_def)
      have bnd: "Suc k < length v" using at_SomeD[OF ab(2)] ni by linarith
      have "w = v[k := v ! Suc k, Suc k := v ! k]"
        using swap_SomeD[OF w(1)] by (simp add: nk ni)
      moreover have "v ! Suc k < v ! k"
        using lt at_SomeD[OF ab(1)] at_SomeD[OF ab(2)] by (simp add: nk ni)
      ultimately have "Suc (inversions w) = inversions v"
        using inversions_swap_adjacent[OF bnd] by simp
      then show ?thesis using IH by simp
    qed
  qed
qed

text \<open>The loop \<open>while (swapped) { swapped = false; for ... }\<close>.\<close>

function bubble_loop :: "int list \<Rightarrow> int \<Rightarrow> bool \<Rightarrow> int list option" where
  "bubble_loop v n swapped =
     (if swapped then do {
        (v', swapped') \<leftarrow> bubble_pass v n 1 False;
        bubble_loop v' n swapped'
      } else Some v)"
  by pat_completeness auto
termination
proof (relation "measure (\<lambda>(v, n, swapped). if swapped then Suc (inversions v) else 0)", goal_cases)
  case 1
  then show ?case by simp
next
  case (2 v n swapped x v' swapped')
  then show ?case using bubble_pass_inversions[of v n 1 False v' swapped'] by auto
qed

declare bubble_loop.simps [simp del]

definition bubble_sort :: "int list \<Rightarrow> int list option" where
  "bubble_sort v = (let n = int (length v) in bubble_loop v n True)"

subsection \<open>\<open>heap_sort\<close>\<close>

function max_heapify :: "int list \<Rightarrow> int \<Rightarrow> int \<Rightarrow> int list option" where
  "max_heapify v n i = do {
     let largest = i;
     let left = 2 * i + 1;
     let right = 2 * i + 2;
     c1 \<leftarrow> (if left < n then do { a \<leftarrow> at v left; b \<leftarrow> at v i; Some (a > b) } else Some False);
     let largest = (if c1 then left else largest);
     c2 \<leftarrow> (if right < n then do { a \<leftarrow> at v right; b \<leftarrow> at v largest; Some (a > b) }
           else Some False);
     let largest = (if c2 then right else largest);
     if largest \<noteq> i then do {
       v' \<leftarrow> swap v i largest;
       max_heapify v' n largest
     } else Some v
   }"
  by pat_completeness auto
termination
proof (relation "measure (\<lambda>(v, n, i). nat (n - i))", goal_cases)
  case 1
  then show ?case by simp
next
  case (2 v n i largest left right c1 largest' c2 largest'' v')
  then have "0 \<le> i" by (auto dest: swap_SomeD)
  with 2 show ?case by (auto split: if_splits)
qed

declare max_heapify.simps [simp del]

text \<open>The loop \<open>for (i = n / 2 - 1; i >= 0; --i) max_heapify(v, n, i);\<close>, entered at \<open>i\<close>.\<close>

function heap_build :: "int list \<Rightarrow> int \<Rightarrow> int \<Rightarrow> int list option" where
  "heap_build v n i =
     (if i \<ge> 0 then do {
        v' \<leftarrow> max_heapify v n i;
        heap_build v' n (i - 1)
      } else Some v)"
  by pat_completeness auto
termination
  by (relation "measure (\<lambda>(v, n, i). nat (i + 1))") auto

declare heap_build.simps [simp del]

text \<open>The loop \<open>for (i = n - 1; i >= 0; --i) { std::swap(v[0], v[i]); max_heapify(v, i, 0); }\<close>.\<close>

function heap_extract :: "int list \<Rightarrow> int \<Rightarrow> int list option" where
  "heap_extract v i =
     (if i \<ge> 0 then do {
        v' \<leftarrow> swap v 0 i;
        v'' \<leftarrow> max_heapify v' i 0;
        heap_extract v'' (i - 1)
      } else Some v)"
  by pat_completeness auto
termination
  by (relation "measure (\<lambda>(v, i). nat (i + 1))") auto

declare heap_extract.simps [simp del]

definition heap_sort :: "int list \<Rightarrow> int list option" where
  "heap_sort v =
     (let n = int (length v) in do {
        v' \<leftarrow> heap_build v n (n div 2 - 1);
        heap_extract v' (n - 1)
      })"


subsection \<open>\<open>shell_sort\<close>\<close>

text \<open>
  The loop \<open>for (j = i; j >= gap && v[j - gap] > v[j]; j -= gap) std::swap(v[j], v[j - gap]);\<close>,
  entered at \<open>j\<close>.
\<close>

function shell_inner :: "int list \<Rightarrow> int \<Rightarrow> int \<Rightarrow> int list option" where
  "shell_inner v gap j =
     (if j \<ge> gap then do {
        a \<leftarrow> at v (j - gap);
        b \<leftarrow> at v j;
        if a > b then do {
          v' \<leftarrow> swap v j (j - gap);
          shell_inner v' gap (j - gap)
        } else Some v
      } else Some v)"
  by pat_completeness auto
termination
proof (relation "measure (\<lambda>(v, gap, j). if gap > 0 then nat j else nat (int (length v) - j))",
    goal_cases)
  case 1
  then show ?case by simp
next
  case (2 v gap j a b v')
  have "gap \<noteq> 0" using 2 by auto
  moreover have "0 \<le> j \<and> j < int (length v) \<and> length v' = length v"
    using 2 by (auto dest: at_SomeD swap_length)
  ultimately show ?case using 2 by auto
qed

declare shell_inner.simps [simp del]

function shell_mid :: "int list \<Rightarrow> int \<Rightarrow> int \<Rightarrow> int \<Rightarrow> int list option" where
  "shell_mid v n gap i =
     (if i < n then do {
        v' \<leftarrow> shell_inner v gap i;
        shell_mid v' n gap (i + 1)
      } else Some v)"
  by pat_completeness auto
termination
  by (relation "measure (\<lambda>(v, n, gap, i). nat (n - i))") auto

declare shell_mid.simps [simp del]

function shell_outer :: "int list \<Rightarrow> int \<Rightarrow> int \<Rightarrow> int list option" where
  "shell_outer v n gap =
     (if gap > 0 then do {
        v' \<leftarrow> shell_mid v n gap gap;
        shell_outer v' n (gap div 2)
      } else Some v)"
  by pat_completeness auto
termination
  by (relation "measure (\<lambda>(v, n, gap). nat gap)") auto

declare shell_outer.simps [simp del]

definition shell_sort :: "int list \<Rightarrow> int list option" where
  "shell_sort v = (let n = int (length v) in shell_outer v n (n div 2))"

subsection \<open>\<open>merge_sort\<close>\<close>

text \<open>
  The auxiliary arrays \<open>int left_sublist[n1]\<close> and \<open>int right_sublist[n2]\<close> are
  uninitialised when declared: a cell is \<open>None\<close> until it is written, and reading an
  unwritten cell fails like an access out of range.
\<close>

definition new_array :: "int \<Rightarrow> int option list option" where
  "new_array n = (if n < 0 then None else Some (replicate (nat n) None))"

definition at_array :: "int option list \<Rightarrow> int \<Rightarrow> int option" where
  "at_array a i = do { c \<leftarrow> at a i; c }"

text \<open>The loop \<open>for (i = 0; i < n1; ++i) sub[i] = v[from + i];\<close>, entered at \<open>i\<close>.\<close>

function copy_sublist ::
  "int list \<Rightarrow> int \<Rightarrow> int \<Rightarrow> int option list \<Rightarrow> int \<Rightarrow> int option list option" where
  "copy_sublist v from n sub i =
     (if i < n then do {
        x \<leftarrow> at v (from + i);
        sub' \<leftarrow> put sub i (Some x);
        copy_sublist v from n sub' (i + 1)
      } else Some sub)"
  by pat_completeness auto
termination
  by (relation "measure (\<lambda>(v, from, n, sub, i). nat (n - i))") auto

declare copy_sublist.simps [simp del]

text \<open>The loop \<open>while (i < n1 && j < n2)\<close>; returns the vector with \<open>i\<close>, \<open>j\<close> and \<open>k\<close>.\<close>

function merge_both ::
  "int list \<Rightarrow> int option list \<Rightarrow> int option list \<Rightarrow> int \<Rightarrow> int \<Rightarrow> int \<Rightarrow> int \<Rightarrow> int \<Rightarrow>
     (int list \<times> int \<times> int \<times> int) option" where
  "merge_both v left_sublist right_sublist n1 n2 i j k =
     (if i < n1 \<and> j < n2 then do {
        l \<leftarrow> at_array left_sublist i;
        r \<leftarrow> at_array right_sublist j;
        if l \<le> r then do {
          v' \<leftarrow> put v k l;
          merge_both v' left_sublist right_sublist n1 n2 (i + 1) j (k + 1)
        } else do {
          v' \<leftarrow> put v k r;
          merge_both v' left_sublist right_sublist n1 n2 i (j + 1) (k + 1)
        }
      } else Some (v, i, j, k))"
  by pat_completeness auto
termination
  by (relation "measure (\<lambda>(v, l, r, n1, n2, i, j, k). nat (n1 - i) + nat (n2 - j))") auto

declare merge_both.simps [simp del]

text \<open>
  The loops \<open>while (i < n1) v[k++] = left_sublist[i++];\<close> and
  \<open>while (j < n2) v[k++] = right_sublist[j++];\<close>; returns the vector and \<open>k\<close>.
\<close>

function merge_rest ::
  "int list \<Rightarrow> int option list \<Rightarrow> int \<Rightarrow> int \<Rightarrow> int \<Rightarrow> (int list \<times> int) option" where
  "merge_rest v sub n i k =
     (if i < n then do {
        x \<leftarrow> at_array sub i;
        v' \<leftarrow> put v k x;
        merge_rest v' sub n (i + 1) (k + 1)
      } else Some (v, k))"
  by pat_completeness auto
termination
  by (relation "measure (\<lambda>(v, sub, n, i, k). nat (n - i))") auto

declare merge_rest.simps [simp del]

definition merge_sublists :: "int list \<Rightarrow> int \<Rightarrow> int \<Rightarrow> int \<Rightarrow> int list option" where
  "merge_sublists v start middle end = do {
     let n1 = middle - start + 1;
     let n2 = end - middle;
     left_sublist \<leftarrow> new_array n1;
     right_sublist \<leftarrow> new_array n2;
     left_sublist \<leftarrow> copy_sublist v start n1 left_sublist 0;
     right_sublist \<leftarrow> copy_sublist v (middle + 1) n2 right_sublist 0;
     (v, i, j, k) \<leftarrow> merge_both v left_sublist right_sublist n1 n2 0 0 start;
     (v, k) \<leftarrow> merge_rest v left_sublist n1 i k;
     (v, k) \<leftarrow> merge_rest v right_sublist n2 j k;
     Some v
   }"

function merge_sort_sublist :: "int list \<Rightarrow> int \<Rightarrow> int \<Rightarrow> int list option" where
  "merge_sort_sublist v start end =
     (if start < end then do {
        let middle = start + ((end - start) div 2);
        v \<leftarrow> merge_sort_sublist v start middle;
        v \<leftarrow> merge_sort_sublist v (middle + 1) end;
        merge_sublists v start middle end
      } else Some v)"
  by pat_completeness auto
termination
  by (relation "measure (\<lambda>(v, start, end). nat (end - start))") auto

declare merge_sort_sublist.simps [simp del]

text \<open>\<open>v.size() - 1\<close> is computed in \<open>size_t\<close> and converted to \<open>int\<close>: \<open>-1\<close> for the empty vector.\<close>

definition merge_sort :: "int list \<Rightarrow> int list option" where
  "merge_sort v = merge_sort_sublist v 0 (int (length v) - 1)"


subsection \<open>\<open>quick_sort\<close>\<close>

text \<open>
  The loop \<open>for (j = start; j < end; ++j) if (v[j] <= v[end]) std::swap(v[++i], v[j]);\<close>,
  entered at \<open>j\<close>; returns the vector and \<open>i\<close>.
\<close>

function partition_loop :: "int list \<Rightarrow> int \<Rightarrow> int \<Rightarrow> int \<Rightarrow> (int list \<times> int) option" where
  "partition_loop v end i j =
     (if j < end then do {
        a \<leftarrow> at v j;
        p \<leftarrow> at v end;
        if a \<le> p then do {
          v' \<leftarrow> swap v (i + 1) j;
          partition_loop v' end (i + 1) (j + 1)
        } else partition_loop v end i (j + 1)
      } else Some (v, i))"
  by pat_completeness auto
termination
  by (relation "measure (\<lambda>(v, end, i, j). nat (end - j))") auto

declare partition_loop.simps [simp del]

definition partition_sublist :: "int list \<Rightarrow> int \<Rightarrow> int \<Rightarrow> (int list \<times> int) option" where
  "partition_sublist v start end = do {
     let i = start - 1;
     (v, i) \<leftarrow> partition_loop v end i start;
     v \<leftarrow> swap v (i + 1) end;
     Some (v, i + 1)
   }"

lemma partition_loop_index:
  "partition_loop v e i j = Some (v', i') \<Longrightarrow> i \<le> i' \<and> (j \<le> e \<longrightarrow> i' - i \<le> e - j)"
proof (induction v e i j rule: partition_loop.induct)
  case (1 v e i j)
  show ?case
  proof (cases "j < e")
    case False
    then show ?thesis using "1.prems" by (simp add: partition_loop.simps)
  next
    case True
    then obtain a p where ap: "at v j = Some a" "at v e = Some p"
      using "1.prems" by (subst (asm) partition_loop.simps) (auto split: Option.bind_splits)
    show ?thesis
    proof (cases "a \<le> p")
      case le: True
      then obtain w where w: "swap v (i + 1) j = Some w"
          "partition_loop w e (i + 1) (j + 1) = Some (v', i')"
        using "1.prems" True ap by (subst (asm) partition_loop.simps) (auto split: Option.bind_splits)
      show ?thesis using "1.IH"(1)[OF True ap le w] True by auto
    next
      case False
      then have "partition_loop v e i (j + 1) = Some (v', i')"
        using "1.prems" True ap by (subst (asm) partition_loop.simps) simp
      then show ?thesis using "1.IH"(2)[OF True ap False] True by auto
    qed
  qed
qed

lemma partition_sublist_index:
  "partition_sublist v start e = Some (v', p) \<Longrightarrow> start \<le> e \<Longrightarrow> start \<le> p \<and> p \<le> e"
  by (auto simp: partition_sublist_def split: Option.bind_splits dest!: partition_loop_index)

function quick_sort_sublist :: "int list \<Rightarrow> int \<Rightarrow> int \<Rightarrow> int list option" where
  "quick_sort_sublist v start end =
     (if start < end then do {
        (v, middle) \<leftarrow> partition_sublist v start end;
        v \<leftarrow> quick_sort_sublist v start (middle - 1);
        quick_sort_sublist v (middle + 1) end
      } else Some v)"
  by pat_completeness auto
termination
proof (relation "measure (\<lambda>(v, start, end). nat (end - start))", goal_cases)
  case 1
  then show ?case by simp
next
  case (2 v start e x v' middle)
  then show ?case using partition_sublist_index[of v start e v' middle] by auto
next
  case (3 v start e x v' middle v'')
  then show ?case using partition_sublist_index[of v start e v' middle] by auto
qed

declare quick_sort_sublist.simps [simp del]

definition quick_sort :: "int list \<Rightarrow> int list option" where
  "quick_sort v = quick_sort_sublist v 0 (int (length v) - 1)"

subsection \<open>Slices\<close>

text \<open>\<open>slice v s e\<close> is \<open>v[s .. e - 1]\<close>, the elements from index \<open>s\<close> up to but not including \<open>e\<close>.\<close>

definition slice :: "'a list \<Rightarrow> nat \<Rightarrow> nat \<Rightarrow> 'a list" where
  "slice v s e = take (e - s) (drop s v)"

subsection \<open>Notions used to state the loop invariants\<close>

text \<open>
  \<open>heap_at v n k\<close>: within the first \<open>n\<close> elements of \<open>v\<close>, the element at \<open>k\<close> is not
  smaller than its children at \<open>2 * k + 1\<close> and \<open>2 * k + 2\<close> (the max-heap property at \<open>k\<close>).
\<close>

definition heap_at :: "int list \<Rightarrow> nat \<Rightarrow> nat \<Rightarrow> bool" where
  "heap_at v n k \<longleftrightarrow>
     (2 * k + 1 < n \<longrightarrow> v ! (2 * k + 1) \<le> v ! k) \<and> (2 * k + 2 < n \<longrightarrow> v ! (2 * k + 2) \<le> v ! k)"

text \<open>The functional merge of two lists, against which the merging loops are verified.\<close>

fun merged :: "int list \<Rightarrow> int list \<Rightarrow> int list" where
  "merged [] ys = ys"
| "merged xs [] = xs"
| "merged (x # xs) (y # ys) = (if x \<le> y then x # merged xs (y # ys) else y # merged (x # xs) ys)"

section \<open>Reading the datasets\<close>

subsection \<open>Input streams\<close>

text \<open>
  \<open>std::cin\<close> and the \<open>std::stringstream\<close> of a line are input streams: the characters not
  yet extracted and the state flags \<open>eofbit\<close> and \<open>failbit\<close> (\<open>badbit\<close> is never set by
  an in-memory source). \<open>eof()\<close> is \<open>eofbit\<close> and \<open>fail()\<close> is \<open>failbit\<close>. The library
  operations used by the source are modelled as the C++ standard specifies them for the
  classic locale and decimal base.
\<close>

record istream =
  buf :: string
  eofbit :: bool
  failbit :: bool

text \<open>
  A stream opened on a string, as \<open>std::stringstream ss(data_str)\<close> and as the standard
  input of a run: nothing extracted, no flag set.
\<close>

definition open_stream :: "string \<Rightarrow> istream" where
  "open_stream s = \<lparr>buf = s, eofbit = False, failbit = False\<rparr>"

text \<open>
  \<open>good()\<close>, the test every extraction starts with, and \<open>clear()\<close>, which resets the flags
  and leaves the characters where they are.
\<close>

definition good :: "istream \<Rightarrow> bool" where
  "good is \<longleftrightarrow> \<not> eofbit is \<and> \<not> failbit is"

definition clear :: "istream \<Rightarrow> istream" where
  "clear is = is\<lparr>eofbit := False, failbit := False\<rparr>"

text \<open>
  The characters the extractions tell apart: the line delimiter of \<open>std::getline\<close>, the
  whitespace of the classic locale (space, tab, line feed, vertical tab, form feed,
  carriage return) and the decimal digits.
\<close>

definition newline :: char where
  "newline = CHR 0x0A"

definition is_space :: "char \<Rightarrow> bool" where
  "is_space c \<longleftrightarrow> c \<in> {CHR 0x20, CHR 0x09, CHR 0x0A, CHR 0x0B, CHR 0x0C, CHR 0x0D}"

definition is_digit :: "char \<Rightarrow> bool" where
  "is_digit c \<longleftrightarrow> c \<in> set ''0123456789''"

text \<open>
  The value of a run of digits, accumulated from the left as an unbounded integer; the
  range of \<open>int\<close> is checked where the value is stored.
\<close>

definition digit_value :: "char \<Rightarrow> int" where
  "digit_value c = int (of_char c) - 48"

definition digits_value :: "string \<Rightarrow> int" where
  "digits_value ds = foldl (\<lambda>acc c. 10 * acc + digit_value c) 0 ds"

text \<open>
  \<open>std::getline(is, str)\<close>. On a stream that is not good, it sets \<open>failbit\<close> and leaves
  \<open>str\<close> as it was. Otherwise \<open>str\<close> becomes the characters before the next newline, which
  is extracted and dropped; when the input ends before a newline, \<open>eofbit\<close> is set, and
  \<open>failbit\<close> too if no character was extracted.
\<close>

definition getline :: "istream \<Rightarrow> string \<Rightarrow> istream \<times> string" where
  "getline is str =
     (if \<not> good is then (is\<lparr>failbit := True\<rparr>, str)
      else
        let line = takeWhile (\<lambda>c. c \<noteq> newline) (buf is);
            rest = dropWhile (\<lambda>c. c \<noteq> newline) (buf is)
        in case rest of
             [] \<Rightarrow> (is\<lparr>buf := [], eofbit := True, failbit := (line = [])\<rparr>, line)
           | _ # rest' \<Rightarrow> (is\<lparr>buf := rest'\<rparr>, line))"

text \<open>
  The sentry of a formatted extraction (\<open>operator>>\<close> with \<open>skipws\<close>). On a stream that is
  not good, it sets \<open>failbit\<close>. Otherwise it skips the leading whitespace; when the input
  ends there, it sets \<open>eofbit\<close> and \<open>failbit\<close>.
\<close>

definition sentry :: "istream \<Rightarrow> istream \<times> bool" where
  "sentry is =
     (if \<not> good is then (is\<lparr>failbit := True\<rparr>, False)
      else
        let rest = dropWhile is_space (buf is)
        in if rest = [] then (is\<lparr>buf := [], eofbit := True, failbit := True\<rparr>, False)
           else (is\<lparr>buf := rest\<rparr>, True))"

text \<open>
  The range of \<open>int\<close>, 32 bits wide.
\<close>

definition INT_MAX :: int where "INT_MAX = 2147483647"
definition INT_MIN :: int where "INT_MIN = - 2147483648"

text \<open>
  \<open>is >> elem\<close> for an \<open>int\<close>. After the sentry, an optional sign and the longest run of
  digits are extracted; the extraction stops at the first other character, which stays
  in the stream, and sets \<open>eofbit\<close> when it stops at the end of the input. With no digit,
  or with a value out of the range of \<open>int\<close>, \<open>failbit\<close> is set; the result is then \<open>None\<close>,
  as the source reads \<open>elem\<close> only when the extraction has not failed.
\<close>

definition extract_int :: "istream \<Rightarrow> istream \<times> int option" where
  "extract_int is =
     (case sentry is of
        (is', False) \<Rightarrow> (is', None)
      | (is', True) \<Rightarrow>
          let cs = buf is';
              negative = (cs \<noteq> [] \<and> hd cs = CHR ''-'');
              cs1 = (if cs \<noteq> [] \<and> (hd cs = CHR ''-'' \<or> hd cs = CHR ''+'') then tl cs else cs);
              ds = takeWhile is_digit cs1;
              rest = dropWhile is_digit cs1;
              val = (if negative then - digits_value ds else digits_value ds);
              ok = (ds \<noteq> [] \<and> INT_MIN \<le> val \<and> val \<le> INT_MAX)
          in (is'\<lparr>buf := rest, eofbit := (rest = []), failbit := \<not> ok\<rparr>,
              if ok then Some val else None))"

text \<open>
  \<open>is >> temp\<close> for a \<open>std::string\<close>: after the sentry, the characters up to the next
  whitespace or the end of the input, where \<open>eofbit\<close> is set.
\<close>

definition extract_string :: "istream \<Rightarrow> istream \<times> string" where
  "extract_string is =
     (case sentry is of
        (is', False) \<Rightarrow> (is', [])
      | (is', True) \<Rightarrow>
          let tok = takeWhile (\<lambda>c. \<not> is_space c) (buf is');
              rest = dropWhile (\<lambda>c. \<not> is_space c) (buf is')
          in (is'\<lparr>buf := rest, eofbit := (rest = [])\<rparr>, tok))"

text \<open>
  The lines written to \<open>std::cerr\<close>: the two usage errors of \<open>main\<close>, the failed conversion
  of the element at a line and position, and the empty line that ends the diagnostics of
  the reader.
\<close>

datatype err_line = Usage | InvalidArgument | ParseError nat nat | BlankErr

text \<open>
  What an extraction does to the length of the buffer and to the flags: the facts by which
  the loop over a line terminates.
\<close>

lemma sentry_length: "sentry is = (is', ok) \<Longrightarrow> length (buf is') \<le> length (buf is)"
  by (auto simp: sentry_def Let_def length_dropWhile_le split: if_splits)

lemma sentry_ok:
  "sentry is = (is', True) \<Longrightarrow>
     good is \<and> good is' \<and> buf is' \<noteq> [] \<and> \<not> is_space (hd (buf is'))"
proof -
  assume a: "sentry is = (is', True)"
  then have g: "good is" and ne: "dropWhile is_space (buf is) \<noteq> []"
    and eq: "is' = is\<lparr>buf := dropWhile is_space (buf is)\<rparr>"
    by (auto simp: sentry_def Let_def split: if_splits)
  have "\<not> is_space (hd (dropWhile is_space (buf is)))" using ne by (rule hd_dropWhile)
  then show ?thesis using g ne eq by (simp add: good_def)
qed

lemma sentry_fail:
  "sentry is = (is', False) \<Longrightarrow> failbit is' \<and> (eofbit is' \<or> (\<not> eofbit is \<and> buf is' = buf is \<and> failbit is))"
  by (auto simp: sentry_def Let_def good_def split: if_splits)

lemma extract_int_Some:
  "extract_int is = (is', Some x) \<Longrightarrow> length (buf is') < length (buf is) \<and> \<not> failbit is'"
proof -
  assume a: "extract_int is = (is', Some x)"
  obtain s1 ok where s: "sentry is = (s1, ok)" by (cases "sentry is")
  with a have ok by (cases ok) (auto simp: extract_int_def)
  define cs where "cs = buf s1"
  define cs1 where "cs1 = (if cs \<noteq> [] \<and> (hd cs = CHR ''-'' \<or> hd cs = CHR ''+'') then tl cs else cs)"
  have ds: "takeWhile is_digit cs1 \<noteq> []" and b: "buf is' = dropWhile is_digit cs1" and nf: "\<not> failbit is'"
    using a s \<open>ok\<close> by (auto simp: extract_int_def Let_def cs_def cs1_def split: if_splits)
  have "length (dropWhile is_digit cs1) < length cs1"
    using ds by (metis length_append takeWhile_dropWhile_id length_greater_0_conv less_add_same_cancel2)
  moreover have "length cs1 \<le> length cs" by (simp add: cs1_def)
  moreover have "length cs \<le> length (buf is)" using sentry_length[OF s] by (simp add: cs_def)
  ultimately show ?thesis using b nf by simp
qed

lemma extract_int_None:
  "extract_int is = (is', None) \<Longrightarrow> \<not> eofbit is' \<Longrightarrow>
     length (buf is') \<le> length (buf is) \<and> \<not> eofbit is"
proof -
  assume a: "extract_int is = (is', None)" and ne: "\<not> eofbit is'"
  obtain s1 ok where s: "sentry is = (s1, ok)" by (cases "sentry is")
  show ?thesis
  proof (cases ok)
    case False
    then have "is' = s1" using a s by (simp add: extract_int_def)
    then show ?thesis using sentry_fail[of "is" s1] s False ne by auto
  next
    case True
    define cs where "cs = buf s1"
    define cs1 where "cs1 = (if cs \<noteq> [] \<and> (hd cs = CHR ''-'' \<or> hd cs = CHR ''+'') then tl cs else cs)"
    have b: "buf is' = dropWhile is_digit cs1"
      using a s True by (auto simp: extract_int_def Let_def cs_def cs1_def split: if_splits)
    have "length (dropWhile is_digit cs1) \<le> length cs1" by (rule length_dropWhile_le)
    moreover have "length cs1 \<le> length cs" by (simp add: cs1_def)
    moreover have "length cs \<le> length (buf is)" using sentry_length[OF s] by (simp add: cs_def)
    moreover have "\<not> eofbit is" using sentry_ok[of "is" s1] s True by (simp add: good_def)
    ultimately show ?thesis using b by simp
  qed
qed

lemma extract_string_measure:
  "extract_string is = (is', t) \<Longrightarrow> good is \<Longrightarrow>
     (eofbit is' \<and> buf is' = []) \<or> length (buf is') < length (buf is)"
proof -
  assume a: "extract_string is = (is', t)" and g: "good is"
  obtain s1 ok where s: "sentry is = (s1, ok)" by (cases "sentry is")
  show ?thesis
  proof (cases ok)
    case False
    then have "is' = s1" using a s by (simp add: extract_string_def)
    moreover have "eofbit s1 \<and> buf s1 = []"
      using s False g by (auto simp: sentry_def Let_def split: if_splits)
    ultimately show ?thesis by simp
  next
    case True
    have b: "buf is' = dropWhile (\<lambda>c. \<not> is_space c) (buf s1)"
      using a s True by (auto simp: extract_string_def Let_def)
    have "buf s1 \<noteq> []" "\<not> is_space (hd (buf s1))" using sentry_ok[of "is" s1] s True by simp_all
    then have "length (dropWhile (\<lambda>c. \<not> is_space c) (buf s1)) < length (buf s1)"
      by (cases "buf s1") (auto intro: le_imp_less_Suc length_dropWhile_le)
    then show ?thesis using b sentry_length[OF s] by simp
  qed
qed

text \<open>
  The loop \<open>while (ss >> elem || !ss.eof())\<close> over the tokens of one line. The state is the
  string stream, \<open>position\<close>, \<open>dataset\<close>, the diagnostics written so far and
  \<open>errors_occured\<close>.
\<close>

function parse_tokens ::
  "istream \<Rightarrow> nat \<Rightarrow> nat \<Rightarrow> int list \<Rightarrow> err_line list \<Rightarrow> bool \<Rightarrow>
     int list \<times> err_line list \<times> bool" where
  "parse_tokens ss linecount position dataset cerr errors_occured =
     (case extract_int ss of (ss, elem) \<Rightarrow>
        if elem \<noteq> None \<or> \<not> eofbit ss then
          (case elem of
             None \<Rightarrow>
               (let cerr = cerr @ [ParseError linecount position];
                    ss = clear ss;
                    (ss, temp) = extract_string ss
                in parse_tokens ss linecount (position + 1) dataset cerr True)
           | Some x \<Rightarrow>
               parse_tokens ss linecount (position + 1) (dataset @ [x]) cerr errors_occured)
        else (dataset, cerr, errors_occured))"
  by pat_completeness auto
termination
proof (relation "measure (\<lambda>(ss, _). 2 * length (buf ss) + (if eofbit ss then 0 else 1))", goal_cases)
  case 1
  then show ?case by simp
next
  case (2 ss linecount position dataset cerr errors_occured ss1 elem cerr' ss2 r ss3 temp)
  then have e: "extract_int ss = (ss1, None)" "\<not> eofbit ss1" by auto
  have es: "extract_string (clear ss1) = (ss3, temp)" using 2 by auto
  have "good (clear ss1)" by (simp add: clear_def good_def)
  from extract_string_measure[OF es this] extract_int_None[OF e]
  show ?case by (auto simp: clear_def)
next
  case (3 ss linecount position dataset cerr errors_occured ss1 elem x)
  then have "extract_int ss = (ss1, Some x)" by auto
  from extract_int_Some[OF this] show ?case by auto
qed

declare parse_tokens.simps [simp del]

text \<open>
  The loop \<open>while (!std::cin.eof() && !data_str.empty())\<close> of \<open>read_in_datasets\<close>. The loop
  is defined as a partial function: from a stream whose \<open>failbit\<close> is set while its
  \<open>eofbit\<close> is not, \<open>std::getline\<close> would change nothing and the loop would not end.
\<close>

partial_function (option) read_lines ::
  "istream \<Rightarrow> string \<Rightarrow> nat \<Rightarrow> int list list \<Rightarrow> err_line list \<Rightarrow> bool \<Rightarrow>
     (int list list \<times> err_line list \<times> bool \<times> istream) option" where
  "read_lines cin data_str linecount datasets cerr errors_occured =
     (if \<not> eofbit cin \<and> data_str \<noteq> [] then
        (case parse_tokens (open_stream data_str) linecount 1 [] cerr errors_occured of
           (dataset, cerr, errors_occured) \<Rightarrow>
             (case getline cin data_str of
                (cin, data_str) \<Rightarrow>
                  read_lines cin data_str (linecount + 1) (datasets @ [dataset]) cerr errors_occured))
      else Some (datasets, cerr, errors_occured, cin))"

declare read_lines.simps [code]

text \<open>
  \<open>read_in_datasets\<close> returns the dataset list, the diagnostics written to \<open>std::cerr\<close> and
  the final state of \<open>std::cin\<close>.
\<close>

definition read_in_datasets ::
  "int list list \<Rightarrow> istream \<Rightarrow> (int list list \<times> err_line list \<times> istream) option" where
  "read_in_datasets datasets cin =
     (case getline cin [] of
        (cin, data_str) \<Rightarrow> do {
          (datasets, cerr, errors_occured, cin) \<leftarrow> read_lines cin data_str 1 datasets [] False;
          Some (datasets, if errors_occured then cerr @ [BlankErr] else cerr, cin)
        })"

subsection \<open>The reading of a line as the specification words it\<close>

text \<open>
  The specification describes the reading of a line by tokens: the line is split at
  whitespace, and each token, as a whole, either is a signed integer or is reported with
  its position and skipped. These definitions follow those words; the source has no
  tokens, it extracts from the stream of the line (\<open>parse_tokens\<close> above).
\<close>

lemma token_rest_shorter:
  "s \<noteq> [] \<Longrightarrow> \<not> is_space (hd s) \<Longrightarrow> length (dropWhile (\<lambda>c. \<not> is_space c) s) < length s"
  by (cases s) (auto intro: le_imp_less_Suc length_dropWhile_le)

function spec_tokens :: "string \<Rightarrow> string list" where
  "spec_tokens s =
     (let s' = dropWhile is_space s
      in if s' = [] then []
         else takeWhile (\<lambda>c. \<not> is_space c) s' # spec_tokens (dropWhile (\<lambda>c. \<not> is_space c) s'))"
  by pat_completeness auto
termination
proof (relation "measure length", goal_cases)
  case 1
  then show ?case by simp
next
  case (2 s s')
  then have "\<not> is_space (hd s')" using hd_dropWhile[of is_space s] by simp
  then have "length (dropWhile (\<lambda>c. \<not> is_space c) s') < length s'"
    using 2 by (intro token_rest_shorter) simp_all
  moreover have "length s' \<le> length s" using 2 by (simp add: length_dropWhile_le)
  ultimately show ?case by simp
qed

declare spec_tokens.simps [simp del]

text \<open>The digits of a token after its optional sign.\<close>

definition unsigned_part :: "string \<Rightarrow> string" where
  "unsigned_part t = (if t \<noteq> [] \<and> (hd t = CHR ''-'' \<or> hd t = CHR ''+'') then tl t else t)"

text \<open>A token is a signed integer: an optional sign, then digits only, with a value in the range of \<open>int\<close>.\<close>

definition spec_int :: "string \<Rightarrow> int option" where
  "spec_int t =
     (let val = (if t \<noteq> [] \<and> hd t = CHR ''-'' then - digits_value (unsigned_part t)
                 else digits_value (unsigned_part t))
      in if unsigned_part t \<noteq> [] \<and> list_all is_digit (unsigned_part t) \<and>
            INT_MIN \<le> val \<and> val \<le> INT_MAX
         then Some val else None)"

fun spec_entries :: "nat \<Rightarrow> nat \<Rightarrow> string list \<Rightarrow> int list \<times> err_line list" where
  "spec_entries linecount position [] = ([], [])"
| "spec_entries linecount position (t # ts) =
     (case spec_entries linecount (position + 1) ts of
        (dataset, cerr) \<Rightarrow>
          (case spec_int t of
             Some x \<Rightarrow> (x # dataset, cerr)
           | None \<Rightarrow> (dataset, ParseError linecount position # cerr)))"

definition spec_line :: "nat \<Rightarrow> string \<Rightarrow> int list \<times> err_line list" where
  "spec_line linecount line = spec_entries linecount 1 (spec_tokens line)"

text \<open>
  The tokens on which the extraction of the source and the specification agree: the
  signed integers, and the tokens that have, after an optional sign, a first character
  that is not a digit.
\<close>

definition plain_token :: "string \<Rightarrow> bool" where
  "plain_token t \<longleftrightarrow>
     spec_int t \<noteq> None \<or> (unsigned_part t \<noteq> [] \<and> \<not> is_digit (hd (unsigned_part t)))"

section \<open>The benchmark harness\<close>

subsection \<open>Maps and output\<close>

text \<open>
  A \<open>std::unordered_map\<close> is an association list with distinct keys. \<open>m[k] = v\<close> is
  \<open>assign\<close>, \<open>m.find(k)\<close> is \<open>map_of\<close>, and iterating over the map visits the list from
  left to right. The iteration order of an unordered map is unspecified in C++; the model
  fixes the order of insertion.
\<close>

fun assign :: "('k \<times> 'v) list \<Rightarrow> 'k \<Rightarrow> 'v \<Rightarrow> ('k \<times> 'v) list" where
  "assign [] k v = [(k, v)]"
| "assign ((k', v') # m) k v = (if k' = k then (k, v) # m else (k', v') # assign m k v)"

type_synonym sort_function = "int list \<Rightarrow> int list option"

definition sort_algos :: "(string \<times> sort_function) list" where
  "sort_algos =
     (let m = [];
          m = assign m ''Insertion Sort'' insertion_sort;
          m = assign m ''Selection Sort'' selection_sort;
          m = assign m ''Bubble Sort'' bubble_sort;
          m = assign m ''Heap Sort'' heap_sort;
          m = assign m ''Merge Sort'' merge_sort;
          m = assign m ''Quick Sort'' quick_sort;
          m = assign m ''Shell Sort'' shell_sort
      in m)"

text \<open>
  The lines written to \<open>std::cout\<close>. A summary entry carries the rank, the name, the total
  time and the number of datasets: the source prints the quotient of the last two as a
  \<open>double\<close> with three decimals, which is not computed here.
\<close>

datatype out_line =
    Progress nat
  | Blank
  | SummaryBanner
  | SummaryEntry nat string int int
  | ResultsBanner
  | DatasetHeader nat
  | ResultEntry nat string int

record harness =
  datasets :: "int list list"
  total_times :: "(string \<times> int) list"
  result_times :: "(string \<times> int list) list"
  cout :: "out_line list"

subsection \<open>Timing\<close>

text \<open>
  \<open>clock i algo\<close> is the duration in microseconds that the two readings of
  \<open>Clock::now()\<close> give for the algorithm named \<open>algo\<close> on \<open>datasets[i]\<close>. Durations and their
  sums are \<open>long long\<close> in the source and mathematical integers here.
\<close>

text \<open>The loop \<open>result_times[iter->first].reserve(num_datasets)\<close> over \<open>sort_algos\<close>.\<close>

fun reserve_all ::
  "(string \<times> sort_function) list \<Rightarrow> (string \<times> int list) list \<Rightarrow> (string \<times> int list) list" where
  "reserve_all [] rt = rt"
| "reserve_all ((algo, f) # rest) rt =
     reserve_all rest (case map_of rt algo of None \<Rightarrow> assign rt algo [] | Some ts \<Rightarrow> rt)"

text \<open>
  The inner loop over \<open>sort_algos\<close> for \<open>datasets[i]\<close>. The sorting function takes its
  argument by value: it works on a copy, and the vector it returns in the model, its local
  copy at return, is dropped.
\<close>

fun time_algos ::
  "(string \<times> sort_function) list \<Rightarrow> (int \<Rightarrow> string \<Rightarrow> int) \<Rightarrow> bool \<Rightarrow> bool \<Rightarrow> int \<Rightarrow>
     harness \<Rightarrow> harness option" where
  "time_algos [] clock summary_needed results_needed i h = Some h"
| "time_algos ((algo, f) # rest) clock summary_needed results_needed i h = do {
     dataset \<leftarrow> at (datasets h) i;
     _ \<leftarrow> f dataset;
     let duration = clock i algo;
     let h = (if summary_needed
              then (case map_of (total_times h) algo of
                      None \<Rightarrow> h\<lparr>total_times := assign (total_times h) algo duration\<rparr>
                    | Some t \<Rightarrow> h\<lparr>total_times := assign (total_times h) algo (t + duration)\<rparr>)
              else h);
     let h = (if results_needed
              then h\<lparr>result_times :=
                     assign (result_times h) algo
                       ((case map_of (result_times h) algo of None \<Rightarrow> [] | Some ts \<Rightarrow> ts)
                        @ [duration])\<rparr>
              else h);
     time_algos rest clock summary_needed results_needed i h
   }"

text \<open>
  The state before the loop over the datasets: both maps are empty, except that, when
  the results are requested, the \<open>reserve\<close> loop has created an empty list of times for
  every algorithm.
\<close>

definition init_harness :: "int list list \<Rightarrow> bool \<Rightarrow> harness" where
  "init_harness ds results_needed =
     \<lparr>datasets = ds, total_times = [],
      result_times = (if results_needed then reserve_all sort_algos [] else []),
      cout = []\<rparr>"

text \<open>One iteration of the loop over the datasets.\<close>

definition dataset_step ::
  "(int \<Rightarrow> string \<Rightarrow> int) \<Rightarrow> bool \<Rightarrow> bool \<Rightarrow> int \<Rightarrow> harness \<Rightarrow> harness option" where
  "dataset_step clock summary_needed results_needed i h =
     time_algos sort_algos clock summary_needed results_needed i
       (h\<lparr>cout := cout h @ [Progress (nat (i + 1))]\<rparr>)"

function bench_loop ::
  "(int \<Rightarrow> string \<Rightarrow> int) \<Rightarrow> bool \<Rightarrow> bool \<Rightarrow> int \<Rightarrow> int \<Rightarrow> harness \<Rightarrow> harness option" where
  "bench_loop clock summary_needed results_needed num_datasets i h =
     (if i < num_datasets then do {
        h \<leftarrow> dataset_step clock summary_needed results_needed i h;
        bench_loop clock summary_needed results_needed num_datasets (i + 1) h
      } else Some h)"
  by pat_completeness auto
termination
  by (relation "measure (\<lambda>(clock, s, r, num_datasets, i, h). nat (num_datasets - i))") auto

declare bench_loop.simps [simp del]

subsection \<open>Reports\<close>

text \<open>
  \<open>std::sort\<close> with \<open>compare_times\<close> orders the pairs by their second component. The order
  it leaves between pairs of equal time is unspecified; the model keeps them in their
  previous order.
\<close>

definition sort_times :: "(string \<times> int) list \<Rightarrow> (string \<times> int) list" where
  "sort_times fast_to_slow = sort_key snd fast_to_slow"

text \<open>The loop \<open>for (int i = 0; i < num_algos; ++i)\<close> of the summary.\<close>

function summary_loop ::
  "(string \<times> int) list \<Rightarrow> int \<Rightarrow> int \<Rightarrow> int \<Rightarrow> out_line list \<Rightarrow> out_line list option" where
  "summary_loop fast_to_slow num_algos num_datasets i out =
     (if i < num_algos then do {
        e \<leftarrow> at fast_to_slow i;
        let algo = fst e;
        let total_time = snd e;
        summary_loop fast_to_slow num_algos num_datasets (i + 1)
          (out @ [SummaryEntry (nat (i + 1)) algo total_time num_datasets])
      } else Some out)"
  by pat_completeness auto
termination
  by (relation "measure (\<lambda>(f, num_algos, n, i, out). nat (num_algos - i))") auto

declare summary_loop.simps [simp del]

definition render_summary :: "harness \<Rightarrow> int \<Rightarrow> int \<Rightarrow> harness option" where
  "render_summary h num_algos num_datasets = do {
     let fast_to_slow = sort_times (total_times h);
     let out = cout h @ [SummaryBanner];
     out \<leftarrow> summary_loop fast_to_slow num_algos num_datasets 0 out;
     Some (h\<lparr>cout := out @ [Blank]\<rparr>)
   }"

text \<open>The loop \<open>fast_to_slow.emplace_back(iter->first, iter->second[i])\<close> over \<open>result_times\<close>.\<close>

fun collect_times ::
  "(string \<times> int list) list \<Rightarrow> int \<Rightarrow> (string \<times> int) list \<Rightarrow> (string \<times> int) list option" where
  "collect_times [] i fast_to_slow = Some fast_to_slow"
| "collect_times ((algo, ts) # rest) i fast_to_slow = do {
     t \<leftarrow> at ts i;
     collect_times rest i (fast_to_slow @ [(algo, t)])
   }"

text \<open>The loop \<open>for (int j = 0; j < num_algos; ++j)\<close> of one dataset block.\<close>

function results_entries ::
  "(string \<times> int) list \<Rightarrow> int \<Rightarrow> int \<Rightarrow> out_line list \<Rightarrow> out_line list option" where
  "results_entries fast_to_slow num_algos j out =
     (if j < num_algos then do {
        e \<leftarrow> at fast_to_slow j;
        let algo = fst e;
        let result_time = snd e;
        results_entries fast_to_slow num_algos (j + 1) (out @ [ResultEntry (nat (j + 1)) algo result_time])
      } else Some out)"
  by pat_completeness auto
termination
  by (relation "measure (\<lambda>(f, num_algos, j, out). nat (num_algos - j))") auto

declare results_entries.simps [simp del]

text \<open>The loop \<open>for (int i = 0; i < num_datasets; ++i)\<close> of the results.\<close>

function results_loop ::
  "(string \<times> int list) list \<Rightarrow> int \<Rightarrow> int \<Rightarrow> int \<Rightarrow> out_line list \<Rightarrow> out_line list option" where
  "results_loop rt num_algos num_datasets i out =
     (if i < num_datasets then do {
        fast_to_slow \<leftarrow> collect_times rt i [];
        let fast_to_slow = sort_times fast_to_slow;
        let out = out @ [DatasetHeader (nat (i + 1))];
        out \<leftarrow> results_entries fast_to_slow num_algos 0 out;
        results_loop rt num_algos num_datasets (i + 1) (out @ [Blank])
      } else Some out)"
  by pat_completeness auto
termination
  by (relation "measure (\<lambda>(rt, num_algos, num_datasets, i, out). nat (num_datasets - i))") auto

declare results_loop.simps [simp del]

definition render_results :: "harness \<Rightarrow> int \<Rightarrow> int \<Rightarrow> harness option" where
  "render_results h num_algos num_datasets = do {
     let out = cout h @ [ResultsBanner];
     out \<leftarrow> results_loop (result_times h) num_algos num_datasets 0 out;
     Some (h\<lparr>cout := out\<rparr>)
   }"

subsection \<open>\<open>main\<close>\<close>

text \<open>
  The result of a run: the value returned by \<open>main\<close>, what was written to \<open>std::cout\<close> and
  \<open>std::cerr\<close>, and the state in which \<open>std::cin\<close> is left. \<open>main\<close> yields \<open>None\<close> when the
  run has undefined behaviour because a vector is indexed out of range.
\<close>

record run =
  exit_code :: int
  stdout :: "out_line list"
  stderr :: "err_line list"
  stdin_after :: istream


definition main :: "string list \<Rightarrow> string \<Rightarrow> (int \<Rightarrow> string \<Rightarrow> int) \<Rightarrow> run option" where
  "main argv stdin clock =
     (let argc = int (length argv) in
      if argc < 1 \<or> argc > 2 then
        Some \<lparr>exit_code = - 1, stdout = [], stderr = [Usage], stdin_after = open_stream stdin\<rparr>
      else if argc = 2 \<and> argv ! 1 \<noteq> ''results'' \<and> argv ! 1 \<noteq> ''summary'' then
        Some \<lparr>exit_code = - 2, stdout = [], stderr = [InvalidArgument],
              stdin_after = open_stream stdin\<rparr>
      else do {
        let num_algos = int (length sort_algos);
        (datasets, cerr, cin) \<leftarrow> read_in_datasets [] (open_stream stdin);
        let num_datasets = int (length datasets);
        let summary_needed = (argc = 1 \<or> (argc = 2 \<and> argv ! 1 = ''summary''));
        let results_needed = (argc = 1 \<or> (argc = 2 \<and> argv ! 1 = ''results''));
        let h = init_harness datasets results_needed;
        h \<leftarrow> bench_loop clock summary_needed results_needed num_datasets 0 h;
        let h = h\<lparr>cout := cout h @ [Blank]\<rparr>;
        h \<leftarrow> (if summary_needed then render_summary h num_algos num_datasets else Some h);
        h \<leftarrow> (if results_needed then render_results h num_algos num_datasets else Some h);
        Some \<lparr>exit_code = 0, stdout = cout h, stderr = cerr, stdin_after = cin\<rparr>
      })"

subsection \<open>Notions used to state the claims about the harness\<close>

text \<open>
  The invariant of the loop over the datasets, after \<open>k\<close> datasets: every list of times in
  \<open>result_times\<close> has \<open>k\<close> entries, and every total in \<open>total_times\<close> is the sum of the \<open>k\<close>
  durations measured for that name.
\<close>

definition times_inv :: "(int \<Rightarrow> string \<Rightarrow> int) \<Rightarrow> nat \<Rightarrow> harness \<Rightarrow> bool" where
  "times_inv clock k h \<longleftrightarrow>
     (\<forall>algo ts. map_of (result_times h) algo = Some ts \<longrightarrow> length ts = k) \<and>
     (\<forall>algo t. map_of (total_times h) algo = Some t \<longrightarrow> t = (\<Sum>i<k. clock (int i) algo))"

text \<open>
  Which names are present: \<open>result_times\<close> holds the registered names when the results are
  requested and nothing otherwise; \<open>total_times\<close> holds the registered names once a dataset
  has been processed and the summary is requested, and nothing otherwise.
\<close>

definition keys_inv :: "bool \<Rightarrow> bool \<Rightarrow> nat \<Rightarrow> harness \<Rightarrow> bool" where
  "keys_inv summary_needed results_needed k h \<longleftrightarrow>
     map fst (result_times h) = (if results_needed then map fst sort_algos else []) \<and>
     map fst (total_times h) = (if summary_needed \<and> 0 < k then map fst sort_algos else [])"

text \<open>The keys of a map after \<open>m[k] = v\<close>: a new key goes to the end.\<close>

definition add_key :: "'k list \<Rightarrow> 'k \<Rightarrow> 'k list" where
  "add_key ks k = (if k \<in> set ks then ks else ks @ [k])"

text \<open>The banners of the reports in the output, in the order in which they were written.\<close>

definition banners :: "out_line list \<Rightarrow> out_line list" where
  "banners out = filter (\<lambda>l. l = SummaryBanner \<or> l = ResultsBanner) out"

subsection \<open>The reports as the specification describes them\<close>







section \<open>Properties of the sorting functions\<close>

subsection \<open>Checked accesses at known indices\<close>

lemma at_int [simp]: "k < length v \<Longrightarrow> at v (int k) = Some (v ! k)"
  by (simp add: at_def in_bounds_def)

lemma put_int [simp]: "k < length v \<Longrightarrow> put v (int k) x = Some (v[k := x])"
  by (simp add: put_def in_bounds_def)

lemma swap_int [simp]:
  "a < length v \<Longrightarrow> b < length v \<Longrightarrow> swap v (int a) (int b) = Some (v[a := v ! b, b := v ! a])"
  by (simp add: swap_def in_bounds_def)

lemma slice_decomp:
  "s \<le> e \<Longrightarrow> v = take s v @ slice v s e @ drop e v"
proof -
  assume "s \<le> e"
  have "drop s v = take (e - s) (drop s v) @ drop (e - s) (drop s v)"
    by (rule append_take_drop_id[symmetric])
  also have "drop (e - s) (drop s v) = drop e v" using \<open>s \<le> e\<close> by simp
  finally have "drop s v = slice v s e @ drop e v" by (simp add: slice_def)
  then have "take s v @ drop s v = take s v @ slice v s e @ drop e v" by simp
  then show ?thesis by simp
qed

lemma mset_slice_frame:
  assumes "mset v' = mset v" "take s v' = take s v" "drop e v' = drop e v" "s \<le> e"
  shows "mset (slice v' s e) = mset (slice v s e)"
proof -
  have "mset v' = mset (take s v') + mset (slice v' s e) + mset (drop e v')"
    using slice_decomp[OF assms(4), of v'] by (metis mset_append add.assoc)
  moreover have "mset v = mset (take s v) + mset (slice v s e) + mset (drop e v)"
    using slice_decomp[OF assms(4), of v] by (metis mset_append add.assoc)
  ultimately show ?thesis using assms by simp
qed

lemma int_plus_1: "int k + 1 = int (Suc k)"
  by simp

lemma int_Suc_minus_1: "int (Suc k) - 1 = int k"
  by simp

subsection \<open>Slices and frames\<close>

lemma slice_length [simp]: "e \<le> length v \<Longrightarrow> length (slice v s e) = e - s"
  by (simp add: slice_def)

lemma slice_nth: "e \<le> length v \<Longrightarrow> k < e - s \<Longrightarrow> slice v s e ! k = v ! (s + k)"
  by (simp add: slice_def)

lemma slice_set: "e \<le> length v \<Longrightarrow> set (slice v s e) = {v ! k | k. s \<le> k \<and> k < e}"
proof (intro set_eqI iffI)
  fix x assume e: "e \<le> length v" and "x \<in> set (slice v s e)"
  then obtain i where "i < e - s" "x = slice v s e ! i"
    by (metis in_set_conv_nth slice_length)
  then have "x = v ! (s + i) \<and> s \<le> s + i \<and> s + i < e" using e by (simp add: slice_nth)
  then show "x \<in> {v ! k | k. s \<le> k \<and> k < e}" by blast
next
  fix x assume e: "e \<le> length v" and "x \<in> {v ! k | k. s \<le> k \<and> k < e}"
  then obtain k where k: "s \<le> k" "k < e" "x = v ! k" by blast
  then have "k - s < length (slice v s e)" "slice v s e ! (k - s) = x"
    using e by (simp_all add: slice_nth)
  then show "x \<in> set (slice v s e)" by (metis nth_mem)
qed

lemma take_eq_mono: "take q v' = take q v \<Longrightarrow> s \<le> q \<Longrightarrow> take s v' = take s v"
  by (metis min.absorb1 take_take)

lemma drop_eq_mono: "drop q v' = drop q v \<Longrightarrow> q \<le> e \<Longrightarrow> drop e v' = drop e v"
  by (metis le_add_diff_inverse2 drop_drop)

lemma slice_cong_take: "take q v' = take q v \<Longrightarrow> e \<le> q \<Longrightarrow> slice v' s e = slice v s e"
proof -
  assume a: "take q v' = take q v" "e \<le> q"
  have "take e v' = take e v" using a by (rule take_eq_mono)
  moreover have "slice w s e = drop s (take e w)" for w :: "'a list"
    by (simp add: slice_def drop_take)
  ultimately show ?thesis by simp
qed

lemma slice_cong_drop: "drop q v' = drop q v \<Longrightarrow> q \<le> s \<Longrightarrow> slice v' s e = slice v s e"
proof -
  assume a: "drop q v' = drop q v" "q \<le> s"
  have "drop s v' = drop s v" using a by (rule drop_eq_mono)
  then show ?thesis by (simp add: slice_def)
qed

lemma slice_append: "s \<le> p \<Longrightarrow> p \<le> e \<Longrightarrow> slice v s e = slice v s p @ slice v p e"
proof -
  assume a: "s \<le> p" "p \<le> e"
  have "take (e - s) (drop s v) = take (p - s) (drop s v) @ take (e - p) (drop (p - s) (drop s v))"
    using a by (metis take_add le_add_diff_inverse diff_diff_cancel diff_le_mono add_diff_cancel_left' Nat.diff_add_assoc2 Nat.add_diff_assoc)
  then show ?thesis using a by (simp add: slice_def)
qed

lemma slice_single: "p < length v \<Longrightarrow> slice v p (Suc p) = [v ! p]"
  by (simp add: slice_def take_Suc_conv_app_nth)

lemma slice_whole: "slice v 0 (length v) = v"
  by (simp add: slice_def)

lemma nth_eq_take: "take q v' = take q v \<Longrightarrow> k < q \<Longrightarrow> v' ! k = v ! k"
  by (metis nth_take)

lemma nth_eq_drop:
  "drop q v' = drop q v \<Longrightarrow> length v' = length v \<Longrightarrow> q \<le> k \<Longrightarrow> k < length v \<Longrightarrow> v' ! k = v ! k"
  by (metis le_add_diff_inverse nth_drop order.strict_implies_order le_trans)

subsection \<open>Partitioning\<close>

lemma partition_loop_exit: "partition_loop v (int e) i (int e) = Some (v, i)"
  by (simp add: partition_loop.simps)

lemma partition_loop_step:
  assumes "e < length v" "j < e" "b \<le> j"
  shows "partition_loop v (int e) (int b - 1) (int j) =
     (if v ! j \<le> v ! e
      then partition_loop (v[b := v ! j, j := v ! b]) (int e) (int (Suc b) - 1) (int (Suc j))
      else partition_loop v (int e) (int b - 1) (int (Suc j)))"
proof -
  have "int b - 1 + 1 = int b" "int j + 1 = int (Suc j)" by simp_all
  then show ?thesis
    using assms by (subst partition_loop.simps) (simp add: add.commute)
qed

lemma partition_loop_spec:
  assumes "e < length v" "s \<le> b" "b \<le> j" "j \<le> e"
    and "\<forall>k. s \<le> k \<and> k < b \<longrightarrow> v ! k \<le> v ! e"
    and "\<forall>k. b \<le> k \<and> k < j \<longrightarrow> v ! e < v ! k"
  shows "\<exists>v' b'. partition_loop v (int e) (int b - 1) (int j) = Some (v', int b' - 1) \<and>
           s \<le> b' \<and> b' \<le> e \<and> length v' = length v \<and> v' ! e = v ! e \<and>
           (\<forall>k. s \<le> k \<and> k < b' \<longrightarrow> v' ! k \<le> v ! e) \<and>
           (\<forall>k. b' \<le> k \<and> k < e \<longrightarrow> v ! e < v' ! k) \<and>
           mset v' = mset v \<and> take s v' = take s v \<and> drop (Suc e) v' = drop (Suc e) v"
  using assms
proof (induction "e - j" arbitrary: v b j)
  case 0
  then have "j = e" by simp
  then show ?case using 0 by (auto simp: partition_loop_exit)
next
  case (Suc d)
  then have je: "j < e" by simp
  show ?case
  proof (cases "v ! j \<le> v ! e")
    case False
    have "\<exists>v' b'. partition_loop v (int e) (int b - 1) (int (Suc j)) = Some (v', int b' - 1) \<and>
           s \<le> b' \<and> b' \<le> e \<and> length v' = length v \<and> v' ! e = v ! e \<and>
           (\<forall>k. s \<le> k \<and> k < b' \<longrightarrow> v' ! k \<le> v ! e) \<and>
           (\<forall>k. b' \<le> k \<and> k < e \<longrightarrow> v ! e < v' ! k) \<and>
           mset v' = mset v \<and> take s v' = take s v \<and> drop (Suc e) v' = drop (Suc e) v"
    proof (rule Suc.hyps(1))
      show "d = e - Suc j" using Suc.hyps(2) by simp
      show "\<forall>k. b \<le> k \<and> k < Suc j \<longrightarrow> v ! e < v ! k"
        using Suc.prems(6) False by (auto simp: less_Suc_eq)
    qed (use Suc.prems je in auto)
    then show ?thesis using partition_loop_step[OF Suc.prems(1) je Suc.prems(3)] False by simp
  next
    case True
    let ?w = "v[b := v ! j, j := v ! b]"
    have bnd: "b < length v" "j < length v" using Suc.prems je by simp_all
    have we: "?w ! e = v ! e" using Suc.prems je by simp
    have "\<exists>v' b'. partition_loop ?w (int e) (int (Suc b) - 1) (int (Suc j)) = Some (v', int b' - 1) \<and>
           s \<le> b' \<and> b' \<le> e \<and> length v' = length ?w \<and> v' ! e = ?w ! e \<and>
           (\<forall>k. s \<le> k \<and> k < b' \<longrightarrow> v' ! k \<le> ?w ! e) \<and>
           (\<forall>k. b' \<le> k \<and> k < e \<longrightarrow> ?w ! e < v' ! k) \<and>
           mset v' = mset ?w \<and> take s v' = take s ?w \<and> drop (Suc e) v' = drop (Suc e) ?w"
    proof (rule Suc.hyps(1))
      show "d = e - Suc j" using Suc.hyps(2) by simp
      show "e < length ?w" using Suc.prems by simp
      show "s \<le> Suc b" "Suc b \<le> Suc j" "Suc j \<le> e" using Suc.prems je by simp_all
      show "\<forall>k. s \<le> k \<and> k < Suc b \<longrightarrow> ?w ! k \<le> ?w ! e"
        unfolding we using Suc.prems(5) True bnd Suc.prems(3)
        by (auto simp: nth_list_update less_Suc_eq)
      show "\<forall>k. Suc b \<le> k \<and> k < Suc j \<longrightarrow> ?w ! e < ?w ! k"
        unfolding we using Suc.prems(6) bnd Suc.prems(3)
        by (auto simp: nth_list_update less_Suc_eq)
    qed
    moreover have "mset ?w = mset v" using bnd by (simp add: mset_swap)
    moreover have "take s ?w = take s v" using Suc.prems by simp
    moreover have "drop (Suc e) ?w = drop (Suc e) v" using Suc.prems je by simp
    ultimately show ?thesis
      using partition_loop_step[OF Suc.prems(1) je Suc.prems(3)] True we by simp
  qed
qed

lemma partition_sublist_nat:
  assumes "s \<le> e" "e < length v"
  shows "\<exists>v' p. partition_sublist v (int s) (int e) = Some (v', int p) \<and>
           s \<le> p \<and> p \<le> e \<and> length v' = length v \<and> v' ! p = v ! e \<and>
           (\<forall>k. s \<le> k \<and> k < p \<longrightarrow> v' ! k \<le> v ! e) \<and>
           (\<forall>k. p < k \<and> k \<le> e \<longrightarrow> v ! e < v' ! k) \<and>
           mset v' = mset v \<and> take s v' = take s v \<and> drop (Suc e) v' = drop (Suc e) v"
proof -
  obtain w b where loop: "partition_loop v (int e) (int s - 1) (int s) = Some (w, int b - 1)"
    and b: "s \<le> b" "b \<le> e" and len: "length w = length v" and piv: "w ! e = v ! e"
    and le: "\<forall>k. s \<le> k \<and> k < b \<longrightarrow> w ! k \<le> v ! e"
    and gt: "\<forall>k. b \<le> k \<and> k < e \<longrightarrow> v ! e < w ! k"
    and frame: "mset w = mset v" "take s w = take s v" "drop (Suc e) w = drop (Suc e) v"
    using partition_loop_spec[of e v s s s] assms by auto
  let ?v' = "w[b := w ! e, e := w ! b]"
  have bnd: "b < length w" "e < length w" using b assms len by simp_all
  have "partition_sublist v (int s) (int e) = Some (?v', int b)"
    using loop bnd by (simp add: partition_sublist_def)
  moreover have "?v' ! b = v ! e" using bnd piv by (auto simp: nth_list_update)
  moreover have "\<forall>k. s \<le> k \<and> k < b \<longrightarrow> ?v' ! k \<le> v ! e"
    using le b bnd by (auto simp: nth_list_update)
  moreover have "\<forall>k. b < k \<and> k \<le> e \<longrightarrow> v ! e < ?v' ! k"
    using gt b bnd by (auto simp: nth_list_update)
  moreover have "mset ?v' = mset v" using frame(1) bnd by (simp add: mset_swap)
  moreover have "take s ?v' = take s v" using frame(2) b assms by simp
  moreover have "drop (Suc e) ?v' = drop (Suc e) v" using frame(3) b by simp
  ultimately show ?thesis using b len by auto
qed

subsection \<open>\<open>quick_sort\<close>\<close>

lemma quick_sort_sublist_spec:
  "s \<le> e' \<Longrightarrow> e' \<le> length v \<Longrightarrow>
     \<exists>v'. quick_sort_sublist v (int s) (int e' - 1) = Some v' \<and> length v' = length v \<and>
          mset v' = mset v \<and> take s v' = take s v \<and> drop e' v' = drop e' v \<and>
          sorted (slice v' s e')"
proof (induction "e' - s" arbitrary: v s e' rule: less_induct)
  case less
  show ?case
  proof (cases "Suc s < e'")
    case False
    then have "quick_sort_sublist v (int s) (int e' - 1) = Some v"
      by (subst quick_sort_sublist.simps) simp
    moreover have "length (slice v s e') \<le> 1" using False less.prems by simp
    then have "sorted (slice v s e')" by (rule sorted01)
    ultimately show ?thesis by simp
  next
    case True
    define e where "e = e' - 1"
    have e: "e' = Suc e" "s < e" "e < length v" "int e' - 1 = int e"
      using True less.prems by (simp_all add: e_def)
    obtain v1 p where part: "partition_sublist v (int s) (int e) = Some (v1, int p)"
      and p: "s \<le> p" "p \<le> e" and len1: "length v1 = length v" and piv: "v1 ! p = v ! e"
      and le: "\<forall>k. s \<le> k \<and> k < p \<longrightarrow> v1 ! k \<le> v ! e"
      and gt: "\<forall>k. p < k \<and> k \<le> e \<longrightarrow> v ! e < v1 ! k"
      and fr1: "mset v1 = mset v" "take s v1 = take s v" "drop e' v1 = drop e' v"
      using partition_sublist_nat[of s e v] e by auto
    have unf: "quick_sort_sublist v (int s) (int e' - 1) =
        quick_sort_sublist v1 (int s) (int p - 1) \<bind> (\<lambda>w. quick_sort_sublist w (int (Suc p)) (int e' - 1))"
      using e by (subst quick_sort_sublist.simps) (simp add: part add.commute)
    obtain v2 where q2: "quick_sort_sublist v1 (int s) (int p - 1) = Some v2"
      and len2: "length v2 = length v1"
      and fr2: "mset v2 = mset v1" "take s v2 = take s v1" "drop p v2 = drop p v1"
      and srt2: "sorted (slice v2 s p)"
    proof -
      have "p - s < e' - s" "p \<le> length v1" using p e len1 by linarith+
      from less.hyps[OF this(1) p(1) this(2)] show ?thesis using that by blast
    qed
    obtain v3 where q3: "quick_sort_sublist v2 (int (Suc p)) (int e' - 1) = Some v3"
      and len3: "length v3 = length v2"
      and fr3: "mset v3 = mset v2" "take (Suc p) v3 = take (Suc p) v2" "drop e' v3 = drop e' v2"
      and srt3: "sorted (slice v3 (Suc p) e')"
    proof -
      have "e' - Suc p < e' - s" "Suc p \<le> e'" "e' \<le> length v2" using p e len1 len2 by linarith+
      from less.hyps[OF this] show ?thesis using that by blast
    qed
    have lens: "e' \<le> length v1" "e' \<le> length v2" "e' \<le> length v3" "p < length v"
      using e p len1 len2 len3 by simp_all
    have res: "quick_sort_sublist v (int s) (int e' - 1) = Some v3"
      using q3 by (simp add: unf q2)
    have "take s v3 = take s v2" by (rule take_eq_mono[OF fr3(2)]) (use p in simp)
    then have tk: "take s v3 = take s v" using fr2 fr1 by simp
    have "drop e' v2 = drop e' v1" by (rule drop_eq_mono[OF fr2(3)]) (use p e in simp)
    then have dr: "drop e' v3 = drop e' v" using fr3 fr1 by simp
    have pv3: "v3 ! p = v ! e"
    proof -
      have "v3 ! p = v2 ! p" using fr3(2) by (rule nth_eq_take) simp
      also have "\<dots> = v1 ! p" by (rule nth_eq_drop[OF fr2(3) len2]) (use lens len1 in simp_all)
      finally show ?thesis using piv by simp
    qed
    have left: "slice v3 s p = slice v2 s p" using fr3(2) by (rule slice_cong_take) simp
    have "mset (slice v2 s p) = mset (slice v1 s p)"
      by (rule mset_slice_frame[OF fr2 p(1)])
    then have "set (slice v2 s p) = set (slice v1 s p)" by (rule mset_eq_setD)
    moreover have "p \<le> length v1" using lens len1 by simp
    ultimately have left_le: "\<forall>x\<in>set (slice v3 s p). x \<le> v ! e"
      using le by (auto simp: left slice_set)
    have "slice v2 (Suc p) e' = slice v1 (Suc p) e'" using fr2(3) by (rule slice_cong_drop) simp
    moreover have "mset (slice v3 (Suc p) e') = mset (slice v2 (Suc p) e')"
      by (rule mset_slice_frame[OF fr3]) (use p e in simp)
    ultimately have "set (slice v3 (Suc p) e') = set (slice v1 (Suc p) e')"
      by (metis mset_eq_setD)
    then have "set (slice v3 (Suc p) e') = {v1 ! k | k. Suc p \<le> k \<and> k < e'}"
      by (simp only: slice_set[OF lens(1)])
    moreover have "\<forall>x\<in>{v1 ! k | k. Suc p \<le> k \<and> k < e'}. v ! e < x"
      using gt e(1) by auto
    ultimately have right_gt: "\<forall>x\<in>set (slice v3 (Suc p) e'). v ! e < x"
      by simp
    have "slice v3 s e' = slice v3 s p @ slice v3 p (Suc p) @ slice v3 (Suc p) e'"
      using p e by (simp add: slice_append[of s p e'] slice_append[of p "Suc p" e'])
    also have "slice v3 p (Suc p) = [v ! e]" using lens len1 len2 len3 pv3 by (simp add: slice_single)
    finally have "slice v3 s e' = slice v2 s p @ [v ! e] @ slice v3 (Suc p) e'" by (simp add: left)
    then have "sorted (slice v3 s e')"
      using srt2 srt3 left_le right_gt by (fastforce simp: sorted_append left)
    then show ?thesis using res tk dr len1 len2 len3 fr1 fr2 fr3 by simp
  qed
qed

lemma quick_sort_correct:
  "\<exists>v'. quick_sort v = Some v' \<and> sorted v' \<and> mset v' = mset v"
proof -
  obtain v' where "quick_sort_sublist v (int 0) (int (length v) - 1) = Some v'"
    "length v' = length v" "mset v' = mset v" "sorted (slice v' 0 (length v))"
    using quick_sort_sublist_spec[of 0 "length v" v] by auto
  then show ?thesis by (auto simp: quick_sort_def slice_def)
qed

subsection \<open>\<open>merge_sort\<close>\<close>

lemma merged_Nil2 [simp]: "merged xs [] = xs"
  by (cases xs) simp_all

lemma mset_merged: "mset (merged xs ys) = mset xs + mset ys"
  by (induction xs ys rule: merged.induct) simp_all

lemma set_merged: "set (merged xs ys) = set xs \<union> set ys"
  by (metis mset_merged set_mset_mset set_mset_union)

lemma sorted_merged: "sorted xs \<Longrightarrow> sorted ys \<Longrightarrow> sorted (merged xs ys)"
  by (induction xs ys rule: merged.induct) (auto simp: set_merged)

lemma length_merged [simp]: "length (merged xs ys) = length xs + length ys"
  by (induction xs ys rule: merged.induct) simp_all

lemma at_array_map_Some [simp]: "i < length xs \<Longrightarrow> at_array (map Some xs) (int i) = Some (xs ! i)"
  by (simp add: at_array_def)

lemma copy_sublist_spec:
  assumes "length sub = n" "from + n \<le> length v" "i \<le> n"
  shows "copy_sublist v (int from) (int n) sub (int i) =
           Some (take i sub @ map Some (slice v (from + i) (from + n)))"
  using assms
proof (induction "n - i" arbitrary: sub i)
  case 0
  then have "i = n" by simp
  then show ?case using 0 by (subst copy_sublist.simps) (simp add: slice_def)
next
  case (Suc d)
  then have i: "i < n" by simp
  let ?x = "v ! (from + i)"
  let ?sub = "sub[i := Some ?x]"
  have step: "copy_sublist v (int from) (int n) sub (int i) =
                copy_sublist v (int from) (int n) ?sub (int (Suc i))"
    using i Suc.prems
    by (subst copy_sublist.simps)
      (simp add: int_plus_1 of_nat_add[symmetric] del: of_nat_add of_nat_Suc)
  have "copy_sublist v (int from) (int n) ?sub (int (Suc i)) =
          Some (take (Suc i) ?sub @ map Some (slice v (from + Suc i) (from + n)))"
    using Suc.hyps(2) Suc.prems i by (intro Suc.hyps(1)) simp_all
  moreover have "take (Suc i) ?sub = take i sub @ [Some ?x]"
    using i Suc.prems by (simp add: take_Suc_conv_app_nth)
  moreover have "slice v (from + i) (from + n) = ?x # slice v (from + Suc i) (from + n)"
  proof -
    have "slice v (from + i) (from + n) = slice v (from + i) (Suc (from + i)) @ slice v (Suc (from + i)) (from + n)"
      using i by (intro slice_append) simp_all
    then show ?thesis using i Suc.prems by (simp add: slice_single)
  qed
  ultimately show ?case using step by simp
qed

lemma merge_rest_spec:
  assumes "i \<le> length xs" "k + (length xs - i) \<le> length v"
  shows "merge_rest v (map Some xs) (int (length xs)) (int i) (int k) =
           Some (take k v @ drop i xs @ drop (k + (length xs - i)) v, int (k + (length xs - i)))"
  using assms
proof (induction "length xs - i" arbitrary: v i k)
  case 0
  then have "i = length xs" by simp
  then show ?case by (subst merge_rest.simps) simp
next
  case (Suc d)
  then have i: "i < length xs" by simp
  then have k: "k < length v" using Suc.prems by simp
  let ?w = "v[k := xs ! i]"
  have step: "merge_rest v (map Some xs) (int (length xs)) (int i) (int k) =
                merge_rest ?w (map Some xs) (int (length xs)) (int (Suc i)) (int (Suc k))"
    using i k by (subst merge_rest.simps) (simp add: int_plus_1 del: of_nat_Suc)
  have r: "Suc k + (length xs - Suc i) = k + (length xs - i)" using i by linarith
  have "merge_rest ?w (map Some xs) (int (length xs)) (int (Suc i)) (int (Suc k)) =
          Some (take (Suc k) ?w @ drop (Suc i) xs @ drop (Suc k + (length xs - Suc i)) ?w,
                int (Suc k + (length xs - Suc i)))"
    using Suc.hyps(2) Suc.prems i by (intro Suc.hyps(1)) simp_all
  then have "merge_rest ?w (map Some xs) (int (length xs)) (int (Suc i)) (int (Suc k)) =
          Some (take (Suc k) ?w @ drop (Suc i) xs @ drop (k + (length xs - i)) ?w,
                int (k + (length xs - i)))"
    by (simp only: r)
  moreover have "take (Suc k) ?w = take k v @ [xs ! i]"
    using k by (simp add: take_Suc_conv_app_nth)
  moreover have "drop (k + (length xs - i)) ?w = drop (k + (length xs - i)) v"
    using i by (intro drop_update_cancel) linarith
  moreover have "drop i xs = xs ! i # drop (Suc i) xs"
    using i by (simp add: Cons_nth_drop_Suc)
  ultimately show ?case by (simp only: step append_Cons append_Nil append_assoc)
qed

lemma merge_both_spec:
  assumes "i \<le> length L" "j \<le> length R" "k + (length L - i) + (length R - j) \<le> length v"
  shows "\<exists>v' i' j' k'.
           merge_both v (map Some L) (map Some R) (int (length L)) (int (length R))
             (int i) (int j) (int k) = Some (v', int i', int j', int k') \<and>
           (i' = length L \<or> j' = length R) \<and> i' \<le> length L \<and> j' \<le> length R \<and>
           length v' = length v \<and>
           k' + (length L - i') + (length R - j') = k + (length L - i) + (length R - j) \<and>
           take k' v' @ merged (drop i' L) (drop j' R) = take k v @ merged (drop i L) (drop j R) \<and>
           drop (k + (length L - i) + (length R - j)) v' =
             drop (k + (length L - i) + (length R - j)) v"
  using assms
proof (induction "(length L - i) + (length R - j)" arbitrary: v i j k)
  case 0
  then have "i = length L" "j = length R" by simp_all
  then show ?case by (subst merge_both.simps) simp
next
  case (Suc d)
  show ?case
  proof (cases "i < length L \<and> j < length R")
    case False
    then have "merge_both v (map Some L) (map Some R) (int (length L)) (int (length R))
             (int i) (int j) (int k) = Some (v, int i, int j, int k)"
      by (subst merge_both.simps) auto
    moreover have "i = length L \<or> j = length R" using False Suc.prems by auto
    ultimately show ?thesis using Suc.prems by blast
  next
    case True
    then have ij: "i < length L" "j < length R" by simp_all
    then have k: "k < length v" using Suc.prems by simp
    define t where "t = k + (length L - i) + (length R - j)"
    have dL: "drop i L = L ! i # drop (Suc i) L" using ij by (simp add: Cons_nth_drop_Suc)
    have dR: "drop j R = R ! j # drop (Suc j) R" using ij by (simp add: Cons_nth_drop_Suc)
    show ?thesis
    proof (cases "L ! i \<le> R ! j")
      case le: True
      let ?w = "v[k := L ! i]"
      have step: "merge_both v (map Some L) (map Some R) (int (length L)) (int (length R))
             (int i) (int j) (int k) =
           merge_both ?w (map Some L) (map Some R) (int (length L)) (int (length R))
             (int (Suc i)) (int j) (int (Suc k))"
        using ij k le by (subst merge_both.simps) (simp add: int_plus_1 del: of_nat_Suc)
      have t': "Suc k + (length L - Suc i) + (length R - j) = t" using ij by (simp add: t_def)
      obtain v' i' j' k' where
        res: "merge_both ?w (map Some L) (map Some R) (int (length L)) (int (length R))
             (int (Suc i)) (int j) (int (Suc k)) = Some (v', int i', int j', int k')"
        and fin: "i' = length L \<or> j' = length R" "i' \<le> length L" "j' \<le> length R"
        and len: "length v' = length ?w"
        and cnt: "k' + (length L - i') + (length R - j') = t"
        and tgt: "take k' v' @ merged (drop i' L) (drop j' R) =
                  take (Suc k) ?w @ merged (drop (Suc i) L) (drop j R)"
        and suf: "drop t v' = drop t ?w"
      proof -
        have "d = (length L - Suc i) + (length R - j)" using Suc.hyps(2) ij by simp
        moreover have "Suc i \<le> length L" "j \<le> length R"
          "Suc k + (length L - Suc i) + (length R - j) \<le> length ?w"
          using ij Suc.prems by simp_all
        ultimately show ?thesis using Suc.hyps(1)[of "Suc i" j "Suc k" ?w] that
          unfolding t' by blast
      qed
      have "take (Suc k) ?w = take k v @ [L ! i]" using k by (simp add: take_Suc_conv_app_nth)
      then have "take k' v' @ merged (drop i' L) (drop j' R) = take k v @ merged (drop i L) (drop j R)"
        using tgt le by (simp add: dL dR)
      moreover have "drop t ?w = drop t v" using ij by (intro drop_update_cancel) (simp add: t_def)
      ultimately show ?thesis
        using res fin len cnt suf unfolding step t_def[symmetric] by auto
    next
      case gt: False
      let ?w = "v[k := R ! j]"
      have step: "merge_both v (map Some L) (map Some R) (int (length L)) (int (length R))
             (int i) (int j) (int k) =
           merge_both ?w (map Some L) (map Some R) (int (length L)) (int (length R))
             (int i) (int (Suc j)) (int (Suc k))"
        using ij k gt by (subst merge_both.simps) (simp add: int_plus_1 del: of_nat_Suc)
      have t': "Suc k + (length L - i) + (length R - Suc j) = t" using ij by (simp add: t_def)
      obtain v' i' j' k' where
        res: "merge_both ?w (map Some L) (map Some R) (int (length L)) (int (length R))
             (int i) (int (Suc j)) (int (Suc k)) = Some (v', int i', int j', int k')"
        and fin: "i' = length L \<or> j' = length R" "i' \<le> length L" "j' \<le> length R"
        and len: "length v' = length ?w"
        and cnt: "k' + (length L - i') + (length R - j') = t"
        and tgt: "take k' v' @ merged (drop i' L) (drop j' R) =
                  take (Suc k) ?w @ merged (drop i L) (drop (Suc j) R)"
        and suf: "drop t v' = drop t ?w"
      proof -
        have "d = (length L - i) + (length R - Suc j)" using Suc.hyps(2) ij by simp
        moreover have "i \<le> length L" "Suc j \<le> length R"
          "Suc k + (length L - i) + (length R - Suc j) \<le> length ?w"
          using ij Suc.prems by simp_all
        ultimately show ?thesis using Suc.hyps(1)[of i "Suc j" "Suc k" ?w] that
          unfolding t' by blast
      qed
      have "take (Suc k) ?w = take k v @ [R ! j]" using k by (simp add: take_Suc_conv_app_nth)
      then have "take k' v' @ merged (drop i' L) (drop j' R) = take k v @ merged (drop i L) (drop j R)"
        using tgt gt by (simp add: dL dR)
      moreover have "drop t ?w = drop t v" using ij by (intro drop_update_cancel) (simp add: t_def)
      ultimately show ?thesis
        using res fin len cnt suf unfolding step t_def[symmetric] by auto
    qed
  qed
qed

lemma new_array_int [simp]: "new_array (int n) = Some (replicate n None)"
  by (simp add: new_array_def)

lemma merge_sublists_spec:
  assumes "s \<le> m" "m < e" "e < length v"
  shows "merge_sublists v (int s) (int m) (int e) =
           Some (take s v @ merged (slice v s (Suc m)) (slice v (Suc m) (Suc e)) @ drop (Suc e) v)"
proof -
  define L where "L = slice v s (Suc m)"
  define R where "R = slice v (Suc m) (Suc e)"
  have lenL: "length L = Suc m - s" and lenR: "length R = e - m"
    using assms by (simp_all add: L_def R_def)
  have n1: "int m - int s + 1 = int (length L)" and n2: "int e - int m = int (length R)"
    using assms lenL lenR by simp_all
  have cl: "copy_sublist v (int s) (int (length L)) (replicate (length L) None) 0 = Some (map Some L)"
    using copy_sublist_spec[of "replicate (length L) None" "length L" s v 0] assms lenL
    by (simp add: L_def)
  have cr: "copy_sublist v (int m + 1) (int (length R)) (replicate (length R) None) 0 = Some (map Some R)"
    using copy_sublist_spec[of "replicate (length R) None" "length R" "Suc m" v 0] assms lenR
    by (simp add: R_def add.commute)
  have tot: "s + (length L - 0) + (length R - 0) = Suc e" using assms lenL lenR by simp
  obtain v1 i' j' k' where
    mb: "merge_both v (map Some L) (map Some R) (int (length L)) (int (length R)) 0 0 (int s) =
           Some (v1, int i', int j', int k')"
    and fin: "i' = length L \<or> j' = length R" "i' \<le> length L" "j' \<le> length R"
    and len1: "length v1 = length v"
    and cnt: "k' + (length L - i') + (length R - j') = Suc e"
    and tgt: "take k' v1 @ merged (drop i' L) (drop j' R) = take s v @ merged L R"
    and suf: "drop (Suc e) v1 = drop (Suc e) v"
    using merge_both_spec[of 0 L 0 R s v] assms unfolding tot by auto
  have b1: "k' + (length L - i') \<le> length v1" using cnt len1 assms by linarith
  note r1 = merge_rest_spec[OF fin(2) b1]
  define v2 where "v2 = take k' v1 @ drop i' L @ drop (k' + (length L - i')) v1"
  have len2: "length v2 = length v1" using b1 fin by (simp add: v2_def)
  have b2: "k' + (length L - i') + (length R - j') \<le> length v2" using cnt len1 len2 assms by linarith
  note r2 = merge_rest_spec[OF fin(3) b2]
  define v3 where "v3 = take (k' + (length L - i')) v2 @ drop j' R @
                          drop (k' + (length L - i') + (length R - j')) v2"
  have res: "merge_sublists v (int s) (int m) (int e) = Some v3"
    unfolding merge_sublists_def Let_def n1 n2
    using r1 r2 by (simp add: cl cr mb v2_def v3_def)
  have "v3 = take s v @ merged L R @ drop (Suc e) v"
  proof (cases "i' = length L")
    case True
    then have "v2 = v1" by (simp add: v2_def)
    then have "v3 = take k' v1 @ drop j' R @ drop (Suc e) v1"
      using True cnt by (simp add: v3_def)
    moreover have "take k' v1 @ drop j' R = take s v @ merged L R" using tgt True by simp
    ultimately show ?thesis using suf by simp
  next
    case False
    then have j: "j' = length R" using fin by simp
    then have "v3 = v2" by (simp add: v3_def)
    then have "v3 = take k' v1 @ drop i' L @ drop (Suc e) v1"
      using j cnt by (simp add: v2_def)
    moreover have "take k' v1 @ drop i' L = take s v @ merged L R" using tgt j by simp
    ultimately show ?thesis using suf by simp
  qed
  then show ?thesis using res by (simp add: L_def R_def)
qed

lemma slice_of_append:
  "length A = s \<Longrightarrow> length M = e - s \<Longrightarrow> s \<le> e \<Longrightarrow> slice (A @ M @ B) s e = M"
  by (simp add: slice_def)

lemma merge_sort_sublist_spec:
  "s \<le> e' \<Longrightarrow> e' \<le> length v \<Longrightarrow>
     \<exists>v'. merge_sort_sublist v (int s) (int e' - 1) = Some v' \<and> length v' = length v \<and>
          mset v' = mset v \<and> take s v' = take s v \<and> drop e' v' = drop e' v \<and>
          sorted (slice v' s e')"
proof (induction "e' - s" arbitrary: v s e' rule: less_induct)
  case less
  show ?case
  proof (cases "Suc s < e'")
    case False
    then have "merge_sort_sublist v (int s) (int e' - 1) = Some v"
      by (subst merge_sort_sublist.simps) simp
    moreover have "length (slice v s e') \<le> 1" using False less.prems by simp
    then have "sorted (slice v s e')" by (rule sorted01)
    ultimately show ?thesis by simp
  next
    case True
    define e where "e = e' - 1"
    define m where "m = s + (e - s) div 2"
    have e: "e' = Suc e" "s < e" "e < length v" "int e' - 1 = int e"
      using True less.prems by (simp_all add: e_def)
    have m: "s \<le> m" "m < e" using e by (simp_all add: m_def)
    have mid: "int s + (int e - int s) div 2 = int m"
    proof -
      have "int m = int s + int ((e - s) div 2)" by (simp add: m_def)
      also have "int ((e - s) div 2) = int (e - s) div 2" by (simp only: of_nat_div of_nat_numeral)
      also have "int (e - s) = int e - int s" using e by (simp add: of_nat_diff)
      finally show ?thesis by simp
    qed
    have unf: "merge_sort_sublist v (int s) (int e' - 1) =
        merge_sort_sublist v (int s) (int (Suc m) - 1) \<bind>
          (\<lambda>w. merge_sort_sublist w (int (Suc m)) (int e' - 1) \<bind>
            (\<lambda>w. merge_sublists w (int s) (int m) (int e)))"
      using e by (subst merge_sort_sublist.simps) (simp add: mid Let_def add.commute)
    obtain v1 where q1: "merge_sort_sublist v (int s) (int (Suc m) - 1) = Some v1"
      and len1: "length v1 = length v"
      and fr1: "mset v1 = mset v" "take s v1 = take s v" "drop (Suc m) v1 = drop (Suc m) v"
      and srt1: "sorted (slice v1 s (Suc m))"
    proof -
      have "Suc m - s < e' - s" "s \<le> Suc m" "Suc m \<le> length v" using m e by linarith+
      from less.hyps[OF this] show ?thesis using that by blast
    qed
    obtain v2 where q2: "merge_sort_sublist v1 (int (Suc m)) (int e' - 1) = Some v2"
      and len2: "length v2 = length v1"
      and fr2: "mset v2 = mset v1" "take (Suc m) v2 = take (Suc m) v1" "drop e' v2 = drop e' v1"
      and srt2: "sorted (slice v2 (Suc m) e')"
    proof -
      have "e' - Suc m < e' - s" "Suc m \<le> e'" "e' \<le> length v1" using m e len1 by linarith+
      from less.hyps[OF this] show ?thesis using that by blast
    qed
    define L where "L = slice v2 s (Suc m)"
    define R where "R = slice v2 (Suc m) e'"
    define v3 where "v3 = take s v2 @ merged L R @ drop e' v2"
    have lens: "e' \<le> length v2" "e < length v2" using e len1 len2 by simp_all
    have q3: "merge_sublists v2 (int s) (int m) (int e) = Some v3"
      using merge_sublists_spec[OF m lens(2)] by (simp add: v3_def L_def R_def e(1))
    have res: "merge_sort_sublist v (int s) (int e' - 1) = Some v3"
      using q1 q2 q3 by (simp add: unf)
    have lenL: "length L = Suc m - s" and lenR: "length R = e' - Suc m"
      using m e lens by (simp_all add: L_def R_def)
    have lenM: "length (merged L R) = e' - s" using lenL lenR m e by simp
    have len3: "length v3 = length v2" using lenM lens less.prems by (simp add: v3_def)
    have "L = slice v1 s (Suc m)" unfolding L_def using fr2(2) by (rule slice_cong_take) simp
    then have "sorted L" using srt1 by simp
    moreover have "sorted R" using srt2 by (simp add: R_def)
    ultimately have "sorted (merged L R)" by (rule sorted_merged)
    moreover have "slice v3 s e' = merged L R"
      unfolding v3_def using lenM lens less.prems by (intro slice_of_append) simp_all
    ultimately have srt3: "sorted (slice v3 s e')" by simp
    have tk: "take s v3 = take s v2" using lens less.prems by (simp add: v3_def)
    have dr: "drop e' v3 = drop e' v2" using lens less.prems lenM by (simp add: v3_def)
    have "slice v2 s e' = L @ R" unfolding L_def R_def using m e by (intro slice_append) simp_all
    then have "mset (slice v3 s e') = mset (slice v2 s e')"
      by (simp add: \<open>slice v3 s e' = merged L R\<close> mset_merged)
    then have ms: "mset v3 = mset v2"
      using slice_decomp[OF less.prems(1), of v3] slice_decomp[OF less.prems(1), of v2] tk dr
      by (metis mset_append)
    have "take s v2 = take s v1" by (rule take_eq_mono[OF fr2(2)]) (use m in simp)
    moreover have "drop e' v1 = drop e' v" by (rule drop_eq_mono[OF fr1(3)]) (use m e in simp)
    ultimately show ?thesis
      using res len1 len2 len3 ms fr1 fr2 tk dr srt3 by simp
  qed
qed

lemma merge_sort_correct:
  "\<exists>v'. merge_sort v = Some v' \<and> sorted v' \<and> mset v' = mset v"
proof -
  obtain v' where "merge_sort_sublist v (int 0) (int (length v) - 1) = Some v'"
    "length v' = length v" "mset v' = mset v" "sorted (slice v' 0 (length v))"
    using merge_sort_sublist_spec[of 0 "length v" v] by auto
  then show ?thesis by (auto simp: merge_sort_def slice_def)
qed

subsection \<open>\<open>insertion_sort\<close>\<close>

lemma insertion_inner_step:
  "k < length v \<Longrightarrow>
     insertion_inner v (int k) =
       (if 0 < k \<and> v ! (k - 1) > v ! k
        then insertion_inner (v[k := v ! (k - 1), k - 1 := v ! k]) (int (k - 1))
        else Some v)"
proof (cases k)
  case 0
  then show ?thesis by (subst insertion_inner.simps) simp
next
  case (Suc k')
  assume "k < length v"
  then have "Suc k' < length v" "k' < length v" using Suc by simp_all
  then show ?thesis
    unfolding Suc by (subst insertion_inner.simps) (simp add: int_Suc_minus_1 del: of_nat_Suc)
qed

lemma insertion_inner_spec:
  assumes "k \<le> m" "m < length v"
    and "\<forall>a b. a \<le> b \<and> b \<le> m \<and> a \<noteq> k \<and> b \<noteq> k \<longrightarrow> v ! a \<le> v ! b"
    and "\<forall>b. k < b \<and> b \<le> m \<longrightarrow> v ! k < v ! b"
  shows "\<exists>v'. insertion_inner v (int k) = Some v' \<and> length v' = length v \<and> mset v' = mset v \<and>
           (\<forall>a b. a \<le> b \<and> b \<le> m \<longrightarrow> v' ! a \<le> v' ! b)"
  using assms
proof (induction k arbitrary: v)
  case 0
  have "v ! a \<le> v ! b" if "a \<le> b" "b \<le> m" for a b
  proof (cases "a = 0")
    case True
    then show ?thesis using "0.prems"(4) that by (cases "b = 0") (auto simp: less_imp_le)
  next
    case False
    then show ?thesis using "0.prems"(3) that by simp
  qed
  moreover have "0 < length v" using "0.prems"(2) by linarith
  then have "insertion_inner v (int 0) = Some v" using insertion_inner_step[of 0 v] by simp
  ultimately show ?case by simp
next
  case (Suc k)
  have kv: "Suc k < length v" "k < length v" using Suc.prems by simp_all
  have srt: "\<And>a b. a \<le> b \<Longrightarrow> b \<le> m \<Longrightarrow> a \<noteq> Suc k \<Longrightarrow> b \<noteq> Suc k \<Longrightarrow> v ! a \<le> v ! b"
    using Suc.prems(3) by simp
  have lt: "\<And>b. Suc k < b \<Longrightarrow> b \<le> m \<Longrightarrow> v ! Suc k < v ! b"
    using Suc.prems(4) by simp
  show ?case
  proof (cases "v ! k > v ! Suc k")
    case False
    have "v ! a \<le> v ! b" if "a \<le> b" "b \<le> m" for a b
    proof -
      consider (eq) "a = b" | (l) "a = Suc k" "a < b" | (r) "b = Suc k" "a < b"
        | (o) "a \<noteq> Suc k" "b \<noteq> Suc k"
        using \<open>a \<le> b\<close> by fastforce
      then show ?thesis
      proof cases
        case eq
        then show ?thesis by simp
      next
        case l
        then show ?thesis using lt[of b] that by simp
      next
        case r
        have "v ! a \<le> v ! k"
        proof (cases "a = k")
          case False
          then show ?thesis using r Suc.prems(1) by (intro srt) simp_all
        qed simp
        then show ?thesis using False r by simp
      next
        case o
        then show ?thesis using srt that by simp
      qed
    qed
    moreover have "insertion_inner v (int (Suc k)) = Some v"
      using insertion_inner_step[OF kv(1)] False by simp
    ultimately show ?thesis by simp
  next
    case True
    let ?w = "v[Suc k := v ! k, k := v ! Suc k]"
    have step: "insertion_inner v (int (Suc k)) = insertion_inner ?w (int k)"
      using insertion_inner_step[OF kv(1)] True by simp
    have "\<exists>v'. insertion_inner ?w (int k) = Some v' \<and> length v' = length ?w \<and> mset v' = mset ?w \<and>
           (\<forall>a b. a \<le> b \<and> b \<le> m \<longrightarrow> v' ! a \<le> v' ! b)"
    proof (rule Suc.IH)
      show "k \<le> m" "m < length ?w" using Suc.prems by simp_all
      show "\<forall>a b. a \<le> b \<and> b \<le> m \<and> a \<noteq> k \<and> b \<noteq> k \<longrightarrow> ?w ! a \<le> ?w ! b"
      proof (intro allI impI, elim conjE)
        fix a b assume ab: "a \<le> b" "b \<le> m" "a \<noteq> k" "b \<noteq> k"
        show "?w ! a \<le> ?w ! b"
          using ab True kv Suc.prems(1,2) srt[of a b] srt[of a k] srt[of k b]
          by (auto simp: nth_list_update)
      qed
      show "\<forall>b. k < b \<and> b \<le> m \<longrightarrow> ?w ! k < ?w ! b"
        using True kv Suc.prems(1,2) lt by (auto simp: nth_list_update)
    qed
    moreover have "mset ?w = mset v" using kv by (simp add: mset_swap)
    ultimately show ?thesis unfolding step by auto
  qed
qed

lemma insertion_outer_spec:
  assumes "i \<le> length v" and "\<forall>a b. a \<le> b \<and> b < i \<longrightarrow> v ! a \<le> v ! b"
  shows "\<exists>v'. insertion_outer v (int (length v)) (int i) = Some v' \<and>
           sorted v' \<and> mset v' = mset v"
  using assms
proof (induction "length v - i" arbitrary: v i)
  case 0
  then have "i = length v" by simp
  moreover have "sorted v" using 0 by (simp add: sorted_iff_nth_mono)
  ultimately show ?case by (subst insertion_outer.simps) simp
next
  case (Suc d)
  then have i: "i < length v" by simp
  obtain w where w: "insertion_inner v (int i) = Some w" "length w = length v" "mset w = mset v"
    "\<forall>a b. a \<le> b \<and> b \<le> i \<longrightarrow> w ! a \<le> w ! b"
    using insertion_inner_spec[of i i v] i Suc.prems(2) by auto
  have step: "insertion_outer v (int (length v)) (int i) =
                insertion_outer w (int (length w)) (int (Suc i))"
    using i w by (subst insertion_outer.simps) (simp add: add.commute)
  have "\<exists>v'. insertion_outer w (int (length w)) (int (Suc i)) = Some v' \<and>
           sorted v' \<and> mset v' = mset w"
    using Suc.hyps(2) i w by (intro Suc.hyps(1)) (auto simp: less_Suc_eq_le)
  then show ?case using step w by auto
qed

lemma insertion_sort_correct:
  "\<exists>v'. insertion_sort v = Some v' \<and> sorted v' \<and> mset v' = mset v"
proof (cases "v = []")
  case True
  then show ?thesis by (simp add: insertion_sort_def insertion_outer.simps)
next
  case False
  then have "1 \<le> length v" by (cases v) simp_all
  moreover have "\<forall>a b. a \<le> b \<and> b < 1 \<longrightarrow> v ! a \<le> v ! b" by simp
  ultimately show ?thesis
    using insertion_outer_spec[of 1 v] by (simp add: insertion_sort_def)
qed

subsection \<open>\<open>selection_sort\<close>\<close>

lemma selection_min_step:
  "j < length v \<Longrightarrow> mn < length v \<Longrightarrow>
     selection_min v (int (length v)) (int j) (int mn) =
       selection_min v (int (length v)) (int (Suc j)) (int (if v ! j < v ! mn then j else mn))"
  by (subst selection_min.simps) (simp add: int_plus_1 del: of_nat_Suc)

lemma selection_min_spec:
  assumes "i \<le> mn" "mn < j" "j \<le> length v" and "\<forall>k. i \<le> k \<and> k < j \<longrightarrow> v ! mn \<le> v ! k"
  shows "\<exists>mn'. selection_min v (int (length v)) (int j) (int mn) = Some (int mn') \<and>
           i \<le> mn' \<and> mn' < length v \<and> (\<forall>k. i \<le> k \<and> k < length v \<longrightarrow> v ! mn' \<le> v ! k)"
  using assms
proof (induction "length v - j" arbitrary: j mn)
  case 0
  then have "j = length v" by simp
  then show ?case using 0 by (subst selection_min.simps) auto
next
  case (Suc d)
  then have j: "j < length v" by simp
  have mn: "mn < length v" using Suc.prems j by simp
  let ?mn = "if v ! j < v ! mn then j else mn"
  have "\<exists>mn'. selection_min v (int (length v)) (int (Suc j)) (int ?mn) = Some (int mn') \<and>
           i \<le> mn' \<and> mn' < length v \<and> (\<forall>k. i \<le> k \<and> k < length v \<longrightarrow> v ! mn' \<le> v ! k)"
  proof (rule Suc.hyps(1))
    show "d = length v - Suc j" using Suc.hyps(2) by simp
    show "i \<le> ?mn" "?mn < Suc j" "Suc j \<le> length v" using Suc.prems j by auto
    show "\<forall>k. i \<le> k \<and> k < Suc j \<longrightarrow> v ! ?mn \<le> v ! k"
      using Suc.prems(4) by (fastforce simp: less_Suc_eq)
  qed
  then show ?case unfolding selection_min_step[OF j mn] .
qed

lemma selection_outer_spec:
  assumes "i \<le> length v" and "\<forall>a b. a < i \<and> a \<le> b \<and> b < length v \<longrightarrow> v ! a \<le> v ! b"
  shows "\<exists>v'. selection_outer v (int (length v)) (int i) = Some v' \<and>
           sorted v' \<and> mset v' = mset v"
  using assms
proof (induction "length v - i" arbitrary: v i)
  case 0
  then have "i = length v" by simp
  moreover have "sorted v" using 0 by (auto simp: sorted_iff_nth_mono)
  ultimately show ?case by (subst selection_outer.simps) simp
next
  case (Suc d)
  then have i: "i < length v" by simp
  show ?case
  proof (cases "Suc i < length v")
    case False
    then have last: "Suc i = length v" using i by simp
    have "v ! a \<le> v ! b" if "a \<le> b" "b < length v" for a b
      using that Suc.prems(2) last by (cases "a = b") auto
    then have "sorted v" by (simp add: sorted_iff_nth_mono)
    moreover have "selection_outer v (int (length v)) (int i) = Some v"
      using last by (subst selection_outer.simps) (simp flip: last)
    ultimately show ?thesis by simp
  next
    case True
    obtain mn where mn: "selection_min v (int (length v)) (int (Suc i)) (int i) = Some (int mn)"
      "i \<le> mn" "mn < length v" "\<forall>k. i \<le> k \<and> k < length v \<longrightarrow> v ! mn \<le> v ! k"
    proof -
      have "\<forall>k. i \<le> k \<and> k < Suc i \<longrightarrow> v ! i \<le> v ! k" by (auto simp: less_Suc_eq)
      moreover have "i \<le> i" "i < Suc i" "Suc i \<le> length v" using True by simp_all
      ultimately show ?thesis using selection_min_spec[of i i "Suc i" v] that by blast
    qed
    define w where "w = v[i := v ! mn, mn := v ! i]"
    have sw: "(if int mn \<noteq> int i then swap v (int i) (int mn) else Some v) = Some w"
      using i mn by (auto simp: w_def)
    have len: "length w = length v" by (simp add: w_def)
    have step: "selection_outer v (int (length v)) (int i) =
                  selection_outer w (int (length w)) (int (Suc i))"
      using True mn(1) sw len
      by (subst selection_outer.simps) (simp add: int_plus_1 del: of_nat_Suc)
    have ms: "mset w = mset v" using i mn by (simp add: w_def mset_swap)
    have "\<exists>v'. selection_outer w (int (length w)) (int (Suc i)) = Some v' \<and>
           sorted v' \<and> mset v' = mset w"
    proof (rule Suc.hyps(1))
      show "d = length w - Suc i" using Suc.hyps(2) len by simp
      show "Suc i \<le> length w" using i len by simp
      show "\<forall>a b. a < Suc i \<and> a \<le> b \<and> b < length w \<longrightarrow> w ! a \<le> w ! b"
      proof (intro allI impI, elim conjE)
        fix a b assume ab: "a < Suc i" "a \<le> b" "b < length w"
        have wb: "\<exists>b'. a \<le> b' \<and> b' < length v \<and> w ! b = v ! b'"
        proof (cases "b = mn")
          case True
          then have "w ! b = v ! i" using mn(3) by (simp add: w_def)
          then show ?thesis using ab(1) i by (intro exI[of _ i]) simp
        next
          case nmn: False
          show ?thesis
          proof (cases "b = i")
            case True
            then have "w ! b = v ! mn" using nmn i by (simp add: w_def)
            then show ?thesis using ab(2) True mn(2,3) by (intro exI[of _ mn]) simp
          next
            case False
            then have "w ! b = v ! b" using nmn by (simp add: w_def)
            then show ?thesis using ab len by (intro exI[of _ b]) simp
          qed
        qed
        then obtain b' where b': "a \<le> b'" "b' < length v" "w ! b = v ! b'" by blast
        show "w ! a \<le> w ! b"
        proof (cases "a = i")
          case True
          then have "w ! a = v ! mn" using i mn by (auto simp: w_def nth_list_update)
          then show ?thesis using mn(4) b' True by simp
        next
          case False
          then have "a < i" using ab by simp
          then have "w ! a = v ! a" using mn(2) by (simp add: w_def)
          then show ?thesis using Suc.prems(2) b' \<open>a < i\<close> by simp
        qed
      qed
    qed
    then show ?thesis using step ms by auto
  qed
qed

lemma selection_sort_correct:
  "\<exists>v'. selection_sort v = Some v' \<and> sorted v' \<and> mset v' = mset v"
  using selection_outer_spec[of 0 v] by (simp add: selection_sort_def)

subsection \<open>\<open>bubble_sort\<close>\<close>

lemma bubble_pass_step:
  "0 < i \<Longrightarrow> i < length v \<Longrightarrow>
     bubble_pass v (int (length v)) (int i) s =
       (if v ! (i - 1) > v ! i
        then bubble_pass (v[i - 1 := v ! i, i := v ! (i - 1)]) (int (length v)) (int (Suc i)) True
        else bubble_pass v (int (length v)) (int (Suc i)) s)"
proof (cases i)
  case 0
  assume "0 < i"
  then show ?thesis using 0 by simp
next
  case (Suc i')
  assume "i < length v"
  then have "Suc i' < length v" "i' < length v" using Suc by simp_all
  then show ?thesis
    unfolding Suc
    by (subst bubble_pass.simps) (simp add: int_Suc_minus_1 int_plus_1 del: of_nat_Suc)
qed

lemma bubble_pass_spec:
  assumes "0 < i" "i \<le> length v"
  shows "\<exists>v' s'. bubble_pass v (int (length v)) (int i) s = Some (v', s') \<and>
           length v' = length v \<and> mset v' = mset v \<and> (s \<longrightarrow> s') \<and>
           (\<not> s' \<longrightarrow> v' = v \<and> (\<forall>k. i \<le> k \<and> k < length v \<longrightarrow> v ! (k - 1) \<le> v ! k))"
  using assms
proof (induction "length v - i" arbitrary: v i s)
  case 0
  then have "i = length v" by simp
  then show ?case by (subst bubble_pass.simps) simp
next
  case (Suc d)
  then have i: "i < length v" by simp
  show ?case
  proof (cases "v ! (i - 1) > v ! i")
    case True
    let ?w = "v[i - 1 := v ! i, i := v ! (i - 1)]"
    have "\<exists>v' s'. bubble_pass ?w (int (length ?w)) (int (Suc i)) True = Some (v', s') \<and>
           length v' = length ?w \<and> mset v' = mset ?w \<and> (True \<longrightarrow> s') \<and>
           (\<not> s' \<longrightarrow> v' = ?w \<and> (\<forall>k. Suc i \<le> k \<and> k < length ?w \<longrightarrow> ?w ! (k - 1) \<le> ?w ! k))"
      using Suc.hyps(2) i by (intro Suc.hyps(1)) simp_all
    then obtain v' s' where r0: "bubble_pass ?w (int (length ?w)) (int (Suc i)) True = Some (v', s') \<and>
           length v' = length ?w \<and> mset v' = mset ?w \<and> (True \<longrightarrow> s')" by blast
    then have r: "bubble_pass ?w (int (length v)) (int (Suc i)) True = Some (v', s')"
      "length v' = length v" "mset v' = mset ?w" "s'" by (simp_all del: of_nat_Suc)
    moreover have "mset ?w = mset v" using i Suc.prems by (simp add: mset_swap)
    ultimately show ?thesis
      using True unfolding bubble_pass_step[OF Suc.prems(1) i] by auto
  next
    case False
    have "\<exists>v' s'. bubble_pass v (int (length v)) (int (Suc i)) s = Some (v', s') \<and>
           length v' = length v \<and> mset v' = mset v \<and> (s \<longrightarrow> s') \<and>
           (\<not> s' \<longrightarrow> v' = v \<and> (\<forall>k. Suc i \<le> k \<and> k < length v \<longrightarrow> v ! (k - 1) \<le> v ! k))"
      using Suc.hyps(2) i by (intro Suc.hyps(1)) simp_all
    then obtain v' s' where r: "bubble_pass v (int (length v)) (int (Suc i)) s = Some (v', s')"
      "length v' = length v" "mset v' = mset v" "s \<longrightarrow> s'"
      "\<not> s' \<longrightarrow> v' = v \<and> (\<forall>k. Suc i \<le> k \<and> k < length v \<longrightarrow> v ! (k - 1) \<le> v ! k)"
      by (auto simp del: of_nat_Suc)
    have "\<forall>k. i \<le> k \<and> k < length v \<longrightarrow> v ! (k - 1) \<le> v ! k" if "\<not> s'"
    proof (intro allI impI)
      fix k assume k: "i \<le> k \<and> k < length v"
      show "v ! (k - 1) \<le> v ! k"
      proof (cases "k = i")
        case True
        then show ?thesis using False by simp
      next
        case False
        then show ?thesis using r(5) that k by simp
      qed
    qed
    then show ?thesis using r False unfolding bubble_pass_step[OF Suc.prems(1) i] by auto
  qed
qed

lemma bubble_loop_spec:
  "n = int (length v) \<Longrightarrow> 0 < length v \<Longrightarrow>
     \<exists>v'. bubble_loop v n s = Some v' \<and> mset v' = mset v \<and> (s \<longrightarrow> sorted v')"
proof (induction v n s rule: bubble_loop.induct)
  case (1 v n swapped)
  show ?case
  proof (cases swapped)
    case False
    then show ?thesis by (subst bubble_loop.simps) simp
  next
    case True
    obtain w s' where pass: "bubble_pass v (int (length v)) (int 1) False = Some (w, s')"
      and len: "length w = length v" and ms: "mset w = mset v"
      and ns: "\<not> s' \<longrightarrow> w = v \<and> (\<forall>k. 1 \<le> k \<and> k < length v \<longrightarrow> v ! (k - 1) \<le> v ! k)"
      using bubble_pass_spec[of 1 v False] "1.prems" by auto
    have pass': "bubble_pass v n 1 False = Some (w, s')" using pass "1.prems" by simp
    have unf: "bubble_loop v n swapped = bubble_loop w n s'"
      using True pass' by (subst bubble_loop.simps) simp
    obtain v' where r: "bubble_loop w n s' = Some v'" "mset v' = mset w" "s' \<longrightarrow> sorted v'"
      using "1.IH"[OF True pass' refl] "1.prems" len by auto
    have "sorted v'"
    proof (cases s')
      case True
      then show ?thesis using r by simp
    next
      case False
      then have "v' = w" using r(1) by (subst (asm) bubble_loop.simps) simp
      moreover have "\<forall>k. Suc k < length v \<longrightarrow> v ! k \<le> v ! Suc k"
        using ns False by (auto dest: spec[of _ "Suc k" for k])
      ultimately show ?thesis using ns False by (simp add: sorted_iff_nth_Suc)
    qed
    then show ?thesis using unf r ms by simp
  qed
qed

lemma bubble_sort_correct:
  "\<exists>v'. bubble_sort v = Some v' \<and> sorted v' \<and> mset v' = mset v"
proof (cases "v = []")
  case True
  have "bubble_pass [] 0 1 False = Some ([], False)" by (subst bubble_pass.simps) simp
  then have "bubble_loop [] 0 True = Some []"
    by (subst bubble_loop.simps, simp, subst bubble_loop.simps, simp)
  then show ?thesis using True by (simp add: bubble_sort_def)
next
  case False
  then show ?thesis using bubble_loop_spec[of "int (length v)" v True] by (auto simp: bubble_sort_def)
qed

subsection \<open>\<open>heap_sort\<close>\<close>

lemma max_heapify_step:
  assumes "n \<le> length v"
  shows "max_heapify v (int n) (int i) =
           (let lg1 = (if 2 * i + 1 < n \<and> v ! (2 * i + 1) > v ! i then 2 * i + 1 else i);
                lg = (if 2 * i + 2 < n \<and> v ! (2 * i + 2) > v ! lg1 then 2 * i + 2 else lg1)
            in if lg \<noteq> i then max_heapify (v[i := v ! lg, lg := v ! i]) (int n) (int lg)
               else Some v)"
proof -
  have l: "2 * int i + 1 = int (2 * i + 1)" and r: "2 * int i + 2 = int (2 * i + 2)" by simp_all
  have b: "2 * i + 1 < n \<Longrightarrow> 2 * i + 1 < length v \<and> i < length v"
    "2 * i + 2 < n \<Longrightarrow> 2 * i + 2 < length v \<and> 2 * i + 1 < length v \<and> i < length v"
    using assms by linarith+
  show ?thesis
    apply (subst max_heapify.simps)
    apply (simp only: l r Let_def)
    apply (cases "2 * i + 1 < n"; cases "2 * i + 2 < n")
    using b apply (auto simp del: of_nat_add of_nat_mult of_nat_Suc simp: Let_def)
    done
qed

lemma mset_take_swap:
  assumes "a < n" "b < n" "n \<le> length v"
  shows "mset (take n (v[a := v ! b, b := v ! a])) = mset (take n v)"
proof -
  have "take n (v[a := v ! b, b := v ! a]) = (take n v)[a := take n v ! b, b := take n v ! a]"
    using assms by (simp add: take_update_swap)
  moreover have "mset ((take n v)[a := take n v ! b, b := take n v ! a]) = mset (take n v)"
    by (rule mset_swap) (use assms in simp_all)
  ultimately show ?thesis by (simp only:)
qed

lemma max_heapify_spec:
  assumes "n \<le> length v" "lo \<le> i"
    and "\<forall>k. lo \<le> k \<and> k < n \<and> k \<noteq> i \<longrightarrow> heap_at v n k"
    and "\<forall>p c. lo \<le> p \<and> (i = 2 * p + 1 \<or> i = 2 * p + 2) \<and> (c = 2 * i + 1 \<or> c = 2 * i + 2) \<and> c < n
           \<longrightarrow> v ! c \<le> v ! p"
  shows "\<exists>v'. max_heapify v (int n) (int i) = Some v' \<and> length v' = length v \<and>
           mset (take n v') = mset (take n v) \<and> drop n v' = drop n v \<and>
           (\<forall>k. lo \<le> k \<and> k < n \<longrightarrow> heap_at v' n k)"
  using assms
proof (induction "n - i" arbitrary: v i rule: less_induct)
  case less
  note H = less.prems(3) and P = less.prems(4)
  define lg1 where "lg1 = (if 2 * i + 1 < n \<and> v ! (2 * i + 1) > v ! i then 2 * i + 1 else i)"
  define lg where "lg = (if 2 * i + 2 < n \<and> v ! (2 * i + 2) > v ! lg1 then 2 * i + 2 else lg1)"
  have unf: "max_heapify v (int n) (int i) =
      (if lg \<noteq> i then max_heapify (v[i := v ! lg, lg := v ! i]) (int n) (int lg) else Some v)"
    using max_heapify_step[OF less.prems(1), of i] by (simp add: Let_def lg_def lg1_def)
  have mx: "2 * i + 1 < n \<longrightarrow> v ! (2 * i + 1) \<le> v ! lg" "2 * i + 2 < n \<longrightarrow> v ! (2 * i + 2) \<le> v ! lg"
    "v ! i \<le> v ! lg"
    by (auto simp: lg_def lg1_def)
  show ?case
  proof (cases "lg = i")
    case True
    then have "heap_at v n i" using mx by (simp add: heap_at_def)
    then have "\<forall>k. lo \<le> k \<and> k < n \<longrightarrow> heap_at v n k" using H by blast
    then show ?thesis using True unf by simp
  next
    case False
    have lgc: "lg = 2 * i + 1 \<or> lg = 2 * i + 2" and lgn: "lg < n"
      using False by (auto simp: lg_def lg1_def split: if_splits)
    have ilg: "i < lg" "i < n" "lg < length v" "i < length v" using lgc lgn less.prems(1) by auto
    define w where "w = v[i := v ! lg, lg := v ! i]"
    have wi: "w ! i = v ! lg" and wlg: "w ! lg = v ! i"
      and wo: "\<And>k. k \<noteq> i \<Longrightarrow> k \<noteq> lg \<Longrightarrow> w ! k = v ! k"
      using ilg by (simp_all add: w_def)
    have lenw: "length w = length v" by (simp add: w_def)
    have Hw: "\<forall>k. lo \<le> k \<and> k < n \<and> k \<noteq> lg \<longrightarrow> heap_at w n k"
    proof (intro allI impI, elim conjE)
      fix k assume k: "lo \<le> k" "k < n" "k \<noteq> lg"
      have child: "w ! c \<le> w ! k" if c: "c = 2 * k + 1 \<or> c = 2 * k + 2" "c < n" for c
      proof (cases "k = i")
        case True
        have "w ! c \<le> v ! lg"
        proof (cases "c = lg")
          case True
          then show ?thesis using wlg mx by simp
        next
          case False
          then have "w ! c = v ! c" using c True by (intro wo) auto
          then show ?thesis using mx c True by auto
        qed
        then show ?thesis using True wi by simp
      next
        case ki: False
        have clg: "c \<noteq> lg" using c lgc ki by auto
        have wk: "w ! k = v ! k" using ki k by (intro wo) auto
        show ?thesis
        proof (cases "c = i")
          case True
          then have "v ! lg \<le> v ! k" using P k c lgc lgn by blast
          then show ?thesis using True wi wk by simp
        next
          case False
          then have "w ! c = v ! c" using clg by (intro wo) auto
          moreover have "heap_at v n k" using H k ki by blast
          ultimately show ?thesis using wk c by (auto simp: heap_at_def)
        qed
      qed
      show "heap_at w n k" unfolding heap_at_def using child by blast
    qed
    have Pw: "\<forall>p c. lo \<le> p \<and> (lg = 2 * p + 1 \<or> lg = 2 * p + 2) \<and>
                (c = 2 * lg + 1 \<or> c = 2 * lg + 2) \<and> c < n \<longrightarrow> w ! c \<le> w ! p"
    proof (intro allI impI, elim conjE)
      fix p c assume pc: "lo \<le> p" "lg = 2 * p + 1 \<or> lg = 2 * p + 2"
        "c = 2 * lg + 1 \<or> c = 2 * lg + 2" "c < n"
      have "p = i" using pc(2) lgc by auto
      moreover have "w ! c = v ! c" using pc(3) ilg by (intro wo) auto
      moreover have "heap_at v n lg" using H less.prems(2) ilg lgn by auto
      ultimately show "w ! c \<le> w ! p" using wi pc by (auto simp: heap_at_def)
    qed
    have "\<exists>v'. max_heapify w (int n) (int lg) = Some v' \<and> length v' = length w \<and>
           mset (take n v') = mset (take n w) \<and> drop n v' = drop n w \<and>
           (\<forall>k. lo \<le> k \<and> k < n \<longrightarrow> heap_at v' n k)"
    proof (rule less.hyps)
      show "n - lg < n - i" using ilg lgn by simp
      show "n \<le> length w" using less.prems(1) lenw by simp
      show "lo \<le> lg" using less.prems(2) ilg by simp
    qed (rule Hw, rule Pw)
    moreover have "mset (take n w) = mset (take n v)"
      unfolding w_def using ilg lgn less.prems(1)
      by (metis mset_take_swap)
    moreover have "drop n w = drop n v" unfolding w_def using ilg lgn by simp
    ultimately show ?thesis using False unf lenw by (auto simp: w_def)
  qed
qed

lemma heap_root_max:
  assumes "\<forall>k. k < j \<longrightarrow> heap_at v j k"
  shows "k < j \<Longrightarrow> v ! k \<le> v ! 0"
proof (induction k rule: less_induct)
  case (less k)
  show ?case
  proof (cases "k = 0")
    case True
    then show ?thesis by simp
  next
    case False
    define p where "p = (k - 1) div 2"
    have kp: "k = 2 * p + 1 \<or> k = 2 * p + 2" and pk: "p < k" using False unfolding p_def by presburger+
    have "heap_at v j p" using assms pk less.prems by simp
    then have "v ! k \<le> v ! p" using kp less.prems by (auto simp: heap_at_def)
    moreover have "v ! p \<le> v ! 0" using less.IH[OF pk] pk less.prems by simp
    ultimately show ?thesis by simp
  qed
qed

lemma heap_build_step:
  "heap_build v n (int (Suc i) - 1) =
     max_heapify v n (int i) \<bind> (\<lambda>v'. heap_build v' n (int i - 1))"
  by (subst heap_build.simps) (simp add: int_Suc_minus_1 del: of_nat_Suc)

lemma heap_build_spec:
  assumes "n \<le> length v" and "\<forall>k. j \<le> k \<and> k < n \<longrightarrow> heap_at v n k"
  shows "\<exists>v'. heap_build v (int n) (int j - 1) = Some v' \<and> length v' = length v \<and>
           mset (take n v') = mset (take n v) \<and> drop n v' = drop n v \<and>
           (\<forall>k. k < n \<longrightarrow> heap_at v' n k)"
  using assms
proof (induction j arbitrary: v)
  case 0
  then show ?case by (subst heap_build.simps) simp
next
  case (Suc i)
  have "\<exists>w. max_heapify v (int n) (int i) = Some w \<and> length w = length v \<and>
           mset (take n w) = mset (take n v) \<and> drop n w = drop n v \<and>
           (\<forall>k. i \<le> k \<and> k < n \<longrightarrow> heap_at w n k)"
  proof (rule max_heapify_spec)
    show "\<forall>k. i \<le> k \<and> k < n \<and> k \<noteq> i \<longrightarrow> heap_at v n k" using Suc.prems(2) by simp
    show "\<forall>p c. i \<le> p \<and> (i = 2 * p + 1 \<or> i = 2 * p + 2) \<and> (c = 2 * i + 1 \<or> c = 2 * i + 2) \<and> c < n
           \<longrightarrow> v ! c \<le> v ! p" by auto
  qed (use Suc.prems in simp_all)
  then obtain w where w: "max_heapify v (int n) (int i) = Some w" "length w = length v"
    "mset (take n w) = mset (take n v)" "drop n w = drop n v"
    "\<forall>k. i \<le> k \<and> k < n \<longrightarrow> heap_at w n k" by blast
  have "\<exists>v'. heap_build w (int n) (int i - 1) = Some v' \<and> length v' = length w \<and>
           mset (take n v') = mset (take n w) \<and> drop n v' = drop n w \<and>
           (\<forall>k. k < n \<longrightarrow> heap_at v' n k)"
    using Suc.prems(1) w by (intro Suc.IH) simp_all
  then show ?case unfolding heap_build_step using w by auto
qed

lemma heap_extract_step:
  "heap_extract v (int (Suc i) - 1) =
     swap v 0 (int i) \<bind> (\<lambda>w. max_heapify w (int i) 0 \<bind> (\<lambda>w'. heap_extract w' (int i - 1)))"
  by (subst heap_extract.simps) (simp add: int_Suc_minus_1 del: of_nat_Suc)

lemma heap_extract_spec:
  assumes "j \<le> length v" and "\<forall>k. k < j \<longrightarrow> heap_at v j k"
    and "\<forall>a b. j \<le> a \<and> a \<le> b \<and> b < length v \<longrightarrow> v ! a \<le> v ! b"
    and "\<forall>a b. a < j \<and> j \<le> b \<and> b < length v \<longrightarrow> v ! a \<le> v ! b"
  shows "\<exists>v'. heap_extract v (int j - 1) = Some v' \<and> sorted v' \<and> mset v' = mset v"
  using assms
proof (induction j arbitrary: v)
  case 0
  then have "sorted v" by (simp add: sorted_iff_nth_mono)
  then show ?case by (subst heap_extract.simps) simp
next
  case (Suc i)
  note heap = Suc.prems(2) and srt = Suc.prems(3) and low = Suc.prems(4)
  have iv: "i < length v" using Suc.prems(1) by simp
  define w where "w = v[0 := v ! i, i := v ! 0]"
  have v0: "0 < length v" using iv by linarith
  have sw: "swap v 0 (int i) = Some w" using swap_int[OF v0 iv] by (simp add: w_def)
  have lenw: "length w = length v" by (simp add: w_def)
  have w0: "i \<noteq> 0 \<Longrightarrow> w ! 0 = v ! i" and wi: "w ! i = v ! 0"
    and wo: "\<And>k. k \<noteq> 0 \<Longrightarrow> k \<noteq> i \<Longrightarrow> w ! k = v ! k"
    using iv v0 by (simp_all add: w_def nth_list_update)
  have msw: "mset w = mset v" unfolding w_def by (rule mset_swap[OF iv v0])
  have "\<exists>v2. max_heapify w (int i) (int 0) = Some v2 \<and> length v2 = length w \<and>
           mset (take i v2) = mset (take i w) \<and> drop i v2 = drop i w \<and>
           (\<forall>k. 0 \<le> k \<and> k < i \<longrightarrow> heap_at v2 i k)"
  proof (rule max_heapify_spec)
    show "i \<le> length w" using iv lenw by simp
    show "\<forall>k. 0 \<le> k \<and> k < i \<and> k \<noteq> 0 \<longrightarrow> heap_at w i k"
    proof (intro allI impI, elim conjE)
      fix k assume k: "k < i" "k \<noteq> 0"
      have hv: "heap_at v (Suc i) k" using heap k by simp
      have "w ! c \<le> w ! k" if "c = 2 * k + 1 \<or> c = 2 * k + 2" "c < i" for c
      proof -
        have "w ! c = v ! c" "w ! k = v ! k" using that k by (auto intro!: wo)
        then show ?thesis using hv that by (auto simp: heap_at_def)
      qed
      then show "heap_at w i k" by (simp add: heap_at_def)
    qed
    show "\<forall>p c. 0 \<le> p \<and> (0 = 2 * p + 1 \<or> 0 = 2 * p + 2) \<and> (c = 2 * 0 + 1 \<or> c = 2 * 0 + 2) \<and> c < i
           \<longrightarrow> w ! c \<le> w ! p" by simp
  qed simp
  then obtain v2 where v2: "max_heapify w (int i) 0 = Some v2" "length v2 = length v"
    "mset (take i v2) = mset (take i w)" "drop i v2 = drop i w"
    "\<forall>k. k < i \<longrightarrow> heap_at v2 i k" using lenw by auto
  have hi: "\<And>b. i \<le> b \<Longrightarrow> b < length v \<Longrightarrow> v2 ! b = w ! b"
    using v2(4) v2(2) lenw by (metis nth_eq_drop)
  have lo_elems: "\<exists>k'. k' < Suc i \<and> v2 ! a = v ! k'" if "a < i" for a
  proof -
    have "v2 ! a \<in> set (take i v2)" using that v2(2) iv by (metis in_set_conv_nth length_take min.absorb2 less_imp_le nth_take)
    then have "v2 ! a \<in> set (take i w)" using v2(3) by (metis mset_eq_setD)
    then obtain k where k: "k < i" "v2 ! a = w ! k"
      by (metis in_set_conv_nth length_take min_less_iff_conj nth_take)
    show ?thesis
    proof (cases "k = 0")
      case True
      then show ?thesis using k w0 that by (intro exI[of _ i]) auto
    next
      case False
      then show ?thesis using k wo[of k] by (intro exI[of _ k]) auto
    qed
  qed
  have rootmax: "\<And>k. k < Suc i \<Longrightarrow> v ! k \<le> v ! 0" using heap_root_max[OF heap] by simp
  have "\<exists>v'. heap_extract v2 (int i - 1) = Some v' \<and> sorted v' \<and> mset v' = mset v2"
  proof (rule Suc.IH)
    show "i \<le> length v2" using v2(2) iv by simp
    show "\<forall>k. k < i \<longrightarrow> heap_at v2 i k" by (rule v2(5))
    show "\<forall>a b. i \<le> a \<and> a \<le> b \<and> b < length v2 \<longrightarrow> v2 ! a \<le> v2 ! b"
    proof (intro allI impI, elim conjE)
      fix a b assume ab: "i \<le> a" "a \<le> b" "b < length v2"
      have e: "v2 ! a = w ! a" "v2 ! b = w ! b" using ab v2(2) by (auto intro!: hi)
      show "v2 ! a \<le> v2 ! b"
      proof (cases "a = b")
        case True
        then show ?thesis by simp
      next
        case False
        then have b: "i < b" "b \<noteq> 0" using ab by auto
        then have wb: "w ! b = v ! b" by (intro wo) auto
        show ?thesis
        proof (cases "a = i")
          case True
          then show ?thesis using e wi wb low b ab v2(2) by auto
        next
          case False
          then have "w ! a = v ! a" using ab by (intro wo) auto
          then show ?thesis using e wb srt ab False v2(2) by auto
        qed
      qed
    qed
    show "\<forall>a b. a < i \<and> i \<le> b \<and> b < length v2 \<longrightarrow> v2 ! a \<le> v2 ! b"
    proof (intro allI impI, elim conjE)
      fix a b assume ab: "a < i" "i \<le> b" "b < length v2"
      obtain k' where k': "k' < Suc i" "v2 ! a = v ! k'" using lo_elems[OF ab(1)] by blast
      have e: "v2 ! b = w ! b" using ab v2(2) by (auto intro!: hi)
      show "v2 ! a \<le> v2 ! b"
      proof (cases "b = i")
        case True
        then show ?thesis using e wi k' rootmax by simp
      next
        case False
        then have "w ! b = v ! b" using ab by (intro wo) auto
        then show ?thesis using e k' low ab False v2(2) by auto
      qed
    qed
  qed
  moreover have "mset v2 = mset v"
  proof -
    have "mset v2 = mset (take i v2) + mset (drop i v2)" by (metis append_take_drop_id mset_append)
    also have "\<dots> = mset (take i w) + mset (drop i w)" using v2 by simp
    also have "\<dots> = mset w" by (metis append_take_drop_id mset_append)
    finally show ?thesis using msw by simp
  qed
  ultimately show ?case unfolding heap_extract_step using sw v2(1) by auto
qed

lemma heap_sort_correct:
  "\<exists>v'. heap_sort v = Some v' \<and> sorted v' \<and> mset v' = mset v"
proof -
  define n where "n = length v"
  have half: "int n div 2 - 1 = int (n div 2) - 1" by simp
  have "\<exists>w. heap_build v (int n) (int (n div 2) - 1) = Some w \<and> length w = length v \<and>
           mset (take n w) = mset (take n v) \<and> drop n w = drop n v \<and>
           (\<forall>k. k < n \<longrightarrow> heap_at w n k)"
  proof (rule heap_build_spec)
    show "\<forall>k. n div 2 \<le> k \<and> k < n \<longrightarrow> heap_at v n k"
      by (auto simp: heap_at_def)
  qed (simp add: n_def)
  then obtain w where w: "heap_build v (int n) (int (n div 2) - 1) = Some w" "length w = n"
    "mset w = mset v" "\<forall>k. k < n \<longrightarrow> heap_at w n k"
    by (auto simp: n_def)
  have "\<exists>v'. heap_extract w (int n - 1) = Some v' \<and> sorted v' \<and> mset v' = mset w"
    using w by (intro heap_extract_spec) simp_all
  then show ?thesis
    using w(1,3) unfolding heap_sort_def Let_def n_def[symmetric] half by auto
qed

subsection \<open>\<open>shell_sort\<close>\<close>

lemma shell_inner_step:
  "0 < g \<Longrightarrow> j < length v \<Longrightarrow>
     shell_inner v (int g) (int j) =
       (if g \<le> j \<and> v ! (j - g) > v ! j
        then shell_inner (v[j := v ! (j - g), j - g := v ! j]) (int g) (int (j - g))
        else Some v)"
proof (cases "g \<le> j")
  case False
  then show ?thesis by (subst shell_inner.simps) simp
next
  case True
  assume j: "j < length v"
  have d: "int j - int g = int (j - g)" using True by simp
  have "j - g < length v" using j by simp
  then show ?thesis using True j by (subst shell_inner.simps) (simp add: d del: of_nat_diff)
qed

lemma shell_inner_spec:
  "0 < g \<Longrightarrow> j < length v \<Longrightarrow>
     \<exists>v'. shell_inner v (int g) (int j) = Some v' \<and> length v' = length v \<and> mset v' = mset v"
proof (induction j arbitrary: v rule: less_induct)
  case (less j)
  show ?case
  proof (cases "g \<le> j \<and> v ! (j - g) > v ! j")
    case False
    then show ?thesis using shell_inner_step[OF less.prems] by auto
  next
    case True
    let ?w = "v[j := v ! (j - g), j - g := v ! j]"
    have "\<exists>v'. shell_inner ?w (int g) (int (j - g)) = Some v' \<and> length v' = length ?w \<and>
            mset v' = mset ?w"
      using less.prems True by (intro less.IH) simp_all
    moreover have "mset ?w = mset v" using less.prems True by (simp add: mset_swap)
    ultimately show ?thesis using True shell_inner_step[OF less.prems] by auto
  qed
qed

lemma shell_inner_1: "shell_inner v 1 j = insertion_inner v j"
proof (induction v j rule: insertion_inner.induct)
  case (1 v j)
  show ?case
    by (subst shell_inner.simps, subst insertion_inner.simps)
      (auto split: Option.bind_split simp: "1.IH")
qed

lemma shell_mid_spec:
  assumes "0 < g" "i \<le> length v"
  shows "\<exists>v'. shell_mid v (int (length v)) (int g) (int i) = Some v' \<and>
           length v' = length v \<and> mset v' = mset v"
  using assms
proof (induction "length v - i" arbitrary: v i)
  case 0
  then show ?case by (subst shell_mid.simps) simp
next
  case (Suc d)
  then have i: "i < length v" by simp
  obtain w where w: "shell_inner v (int g) (int i) = Some w" "length w = length v" "mset w = mset v"
    using shell_inner_spec[OF Suc.prems(1) i] by blast
  have step: "shell_mid v (int (length v)) (int g) (int i) =
                shell_mid w (int (length w)) (int g) (int (Suc i))"
    using i w by (subst shell_mid.simps) (simp add: int_plus_1 del: of_nat_Suc)
  have "\<exists>v'. shell_mid w (int (length w)) (int g) (int (Suc i)) = Some v' \<and>
           length v' = length w \<and> mset v' = mset w"
    using Suc.hyps(2) Suc.prems(1) i w by (intro Suc.hyps(1)) simp_all
  then show ?case unfolding step using w by auto
qed

lemma shell_mid_1: "shell_mid v n 1 i = insertion_outer v n i"
proof (induction v n i rule: insertion_outer.induct)
  case (1 v n i)
  show ?case
    by (subst shell_mid.simps, subst insertion_outer.simps)
      (auto split: Option.bind_split simp: "1.IH" shell_inner_1)
qed

lemma shell_outer_spec:
  "0 < g \<Longrightarrow> g \<le> length v \<Longrightarrow>
     \<exists>v'. shell_outer v (int (length v)) (int g) = Some v' \<and> sorted v' \<and> mset v' = mset v"
proof (induction g arbitrary: v rule: less_induct)
  case (less g)
  have half: "int g div 2 = int (g div 2)" by simp
  show ?case
  proof (cases "g = 1")
    case True
    obtain w where w: "insertion_outer v (int (length v)) (int 1) = Some w" "sorted w" "mset w = mset v"
      using insertion_outer_spec[of 1 v] less.prems True by auto
    have "shell_outer w (int (length v)) 0 = Some w" by (subst shell_outer.simps) simp
    then have "shell_outer v (int (length v)) (int g) = Some w"
      using True w(1) by (subst shell_outer.simps) (simp add: shell_mid_1)
    then show ?thesis using w by simp
  next
    case False
    then have g2: "0 < g div 2" "g div 2 < g" using less.prems by simp_all
    obtain w where w: "shell_mid v (int (length v)) (int g) (int g) = Some w"
      "length w = length v" "mset w = mset v"
      using shell_mid_spec[OF less.prems] by blast
    have step: "shell_outer v (int (length v)) (int g) = shell_outer w (int (length w)) (int (g div 2))"
      using less.prems(1) w by (subst shell_outer.simps) (simp only: half, simp)
    have "\<exists>v'. shell_outer w (int (length w)) (int (g div 2)) = Some v' \<and> sorted v' \<and> mset v' = mset w"
      using g2 less.prems w by (intro less.IH) simp_all
    then show ?thesis unfolding step using w by auto
  qed
qed

lemma shell_sort_correct:
  "\<exists>v'. shell_sort v = Some v' \<and> sorted v' \<and> mset v' = mset v"
proof (cases "length v div 2 = 0")
  case True
  then have "length v \<le> 1" by simp
  then have "sorted v" by (rule sorted01)
  moreover have "int (length v) div 2 = 0" using True by (simp flip: of_nat_div)
  then have "shell_sort v = Some v"
    by (simp add: shell_sort_def Let_def shell_outer.simps)
  ultimately show ?thesis by simp
next
  case False
  have "int (length v) div 2 = int (length v div 2)" by simp
  then show ?thesis
    using shell_outer_spec[of "length v div 2" v] False
    by (simp add: shell_sort_def Let_def)
qed

section \<open>Properties of the harness\<close>

subsection \<open>The registered algorithms\<close>

lemma sort_algos_eq:
  "sort_algos =
     [(''Insertion Sort'', insertion_sort), (''Selection Sort'', selection_sort),
      (''Bubble Sort'', bubble_sort), (''Heap Sort'', heap_sort), (''Merge Sort'', merge_sort),
      (''Quick Sort'', quick_sort), (''Shell Sort'', shell_sort)]"
  by (simp add: sort_algos_def)

lemma sort_algos_correct:
  assumes "(name, f) \<in> set sort_algos"
  shows "\<exists>v'. f v = Some v' \<and> sorted v' \<and> mset v' = mset v"
proof -
  have "f \<in> {insertion_sort, selection_sort, bubble_sort, heap_sort, merge_sort, quick_sort,
      shell_sort}"
    using assms unfolding sort_algos_eq by auto
  then show ?thesis
    using insertion_sort_correct selection_sort_correct bubble_sort_correct heap_sort_correct
      merge_sort_correct quick_sort_correct shell_sort_correct
    by blast
qed

subsection \<open>The timing loops\<close>

lemma map_of_assign: "map_of (assign m k v) = (map_of m)(k \<mapsto> v)"
  by (induction m) (auto simp: fun_eq_iff)

lemma sort_algos_total_fn: "(name, f) \<in> set sort_algos \<Longrightarrow> \<exists>v'. f d = Some v'"
  using sort_algos_correct by blast

lemma sort_algos_names:
  "map fst sort_algos =
     [''Insertion Sort'', ''Selection Sort'', ''Bubble Sort'', ''Heap Sort'', ''Merge Sort'',
      ''Quick Sort'', ''Shell Sort'']"
  by (simp add: sort_algos_eq)

lemma sort_algos_distinct: "distinct (map fst sort_algos)"
  by (simp add: sort_algos_names)

lemma time_algos_spec:
  assumes "set as \<subseteq> set sort_algos" "distinct (map fst as)" "0 \<le> i" "i < int (length (datasets h))"
  shows "\<exists>h'. time_algos as clock sn rn i h = Some h' \<and> datasets h' = datasets h \<and>
           cout h' = cout h \<and>
           map_of (total_times h') =
             (\<lambda>a. if sn \<and> a \<in> fst ` set as
                  then Some ((case map_of (total_times h) a of None \<Rightarrow> 0 | Some t \<Rightarrow> t) + clock i a)
                  else map_of (total_times h) a) \<and>
           map_of (result_times h') =
             (\<lambda>a. if rn \<and> a \<in> fst ` set as
                  then Some ((case map_of (result_times h) a of None \<Rightarrow> [] | Some ts \<Rightarrow> ts)
                             @ [clock i a])
                  else map_of (result_times h) a)"
  using assms
proof (induction as arbitrary: h)
  case Nil
  then show ?case by simp
next
  case (Cons p as)
  obtain algo f where p: "p = (algo, f)" by (cases p)
  obtain d where d: "at (datasets h) i = Some d"
    using Cons.prems(3,4) by (simp add: at_def in_bounds_def)
  obtain v' where f: "f d = Some v'" using sort_algos_total_fn[of algo f d] Cons.prems(1) p by auto
  define h1 where "h1 = (if sn
              then (case map_of (total_times h) algo of
                      None \<Rightarrow> h\<lparr>total_times := assign (total_times h) algo (clock i algo)\<rparr>
                    | Some t \<Rightarrow> h\<lparr>total_times := assign (total_times h) algo (t + clock i algo)\<rparr>)
              else h)"
  define h2 where "h2 = (if rn
              then h1\<lparr>result_times :=
                     assign (result_times h1) algo
                       ((case map_of (result_times h1) algo of None \<Rightarrow> [] | Some ts \<Rightarrow> ts)
                        @ [clock i algo])\<rparr>
              else h1)"
  have unf: "time_algos (p # as) clock sn rn i h = time_algos as clock sn rn i h2"
    by (simp add: p d f h1_def h2_def Let_def)
  have h1: "datasets h1 = datasets h" "cout h1 = cout h" "result_times h1 = result_times h"
    "map_of (total_times h1) =
       (if sn then (map_of (total_times h))(algo \<mapsto>
          (case map_of (total_times h) algo of None \<Rightarrow> 0 | Some t \<Rightarrow> t) + clock i algo)
        else map_of (total_times h))"
    by (auto simp: h1_def map_of_assign split: option.splits)
  have h2: "datasets h2 = datasets h" "cout h2 = cout h" "total_times h2 = total_times h1"
    "map_of (result_times h2) =
       (if rn then (map_of (result_times h))(algo \<mapsto>
          (case map_of (result_times h) algo of None \<Rightarrow> [] | Some ts \<Rightarrow> ts) @ [clock i algo])
        else map_of (result_times h))"
    using h1(1,2,3) by (auto simp: h2_def map_of_assign)
  have notin: "algo \<notin> fst ` set as" using Cons.prems(2) p by auto
  obtain h' where h': "time_algos as clock sn rn i h2 = Some h'" "datasets h' = datasets h2"
    "cout h' = cout h2"
    "map_of (total_times h') =
             (\<lambda>a. if sn \<and> a \<in> fst ` set as
                  then Some ((case map_of (total_times h2) a of None \<Rightarrow> 0 | Some t \<Rightarrow> t) + clock i a)
                  else map_of (total_times h2) a)"
    "map_of (result_times h') =
             (\<lambda>a. if rn \<and> a \<in> fst ` set as
                  then Some ((case map_of (result_times h2) a of None \<Rightarrow> [] | Some ts \<Rightarrow> ts)
                             @ [clock i a])
                  else map_of (result_times h2) a)"
    using Cons.IH[of h2] Cons.prems h2(1) by auto
  have "map_of (total_times h') =
             (\<lambda>a. if sn \<and> a \<in> fst ` set (p # as)
                  then Some ((case map_of (total_times h) a of None \<Rightarrow> 0 | Some t \<Rightarrow> t) + clock i a)
                  else map_of (total_times h) a)"
    using notin by (auto simp: h'(4) h2(3) h1(4) p fun_eq_iff)
  moreover have "map_of (result_times h') =
             (\<lambda>a. if rn \<and> a \<in> fst ` set (p # as)
                  then Some ((case map_of (result_times h) a of None \<Rightarrow> [] | Some ts \<Rightarrow> ts)
                             @ [clock i a])
                  else map_of (result_times h) a)"
    using notin by (auto simp: h'(5) h2(4) p fun_eq_iff)
  ultimately show ?case using unf h' h2 by auto
qed

lemma dataset_step_spec:
  assumes "0 \<le> i" "i < int (length (datasets h))"
  shows "\<exists>h'. dataset_step clock sn rn i h = Some h' \<and> datasets h' = datasets h \<and>
           cout h' = cout h @ [Progress (nat (i + 1))] \<and>
           map_of (total_times h') =
             (\<lambda>a. if sn \<and> a \<in> fst ` set sort_algos
                  then Some ((case map_of (total_times h) a of None \<Rightarrow> 0 | Some t \<Rightarrow> t) + clock i a)
                  else map_of (total_times h) a) \<and>
           map_of (result_times h') =
             (\<lambda>a. if rn \<and> a \<in> fst ` set sort_algos
                  then Some ((case map_of (result_times h) a of None \<Rightarrow> [] | Some ts \<Rightarrow> ts)
                             @ [clock i a])
                  else map_of (result_times h) a)"
  unfolding dataset_step_def
  using time_algos_spec[of sort_algos i "h\<lparr>cout := cout h @ [Progress (nat (i + 1))]\<rparr>" clock sn rn]
    assms sort_algos_distinct
  by (simp cong: if_cong option.case_cong)

lemma bench_loop_datasets:
  "0 \<le> i \<Longrightarrow> num_datasets = int (length (datasets h)) \<Longrightarrow>
     \<exists>h'. bench_loop clock sn rn num_datasets i h = Some h' \<and> datasets h' = datasets h"
proof (induction clock sn rn num_datasets i h rule: bench_loop.induct)
  case (1 clock sn rn num_datasets i h)
  show ?case
  proof (cases "i < num_datasets")
    case False
    then show ?thesis by (subst bench_loop.simps) simp
  next
    case True
    obtain h1 where h1: "dataset_step clock sn rn i h = Some h1" "datasets h1 = datasets h"
      using dataset_step_spec[of i h clock sn rn] True "1.prems" by auto
    have "\<exists>h'. bench_loop clock sn rn num_datasets (i + 1) h1 = Some h' \<and> datasets h' = datasets h1"
      using "1.IH"[OF True h1(1)] "1.prems" h1(2) by simp
    then show ?thesis using True h1 by (subst bench_loop.simps) auto
  qed
qed

lemma keys_assign: "map fst (assign m k v) = add_key (map fst m) k"
proof (induction m)
  case Nil
  then show ?case by (simp add: add_key_def)
next
  case (Cons p m)
  obtain k' v' where p: "p = (k', v')" by (cases p)
  show ?case
  proof (cases "k' = k")
    case True
    then show ?thesis by (simp add: p add_key_def)
  next
    case False
    then show ?thesis using Cons.IH by (auto simp: p add_key_def)
  qed
qed

lemma add_key_absorb: "k \<in> set ks \<Longrightarrow> add_key ks k = ks"
  by (simp add: add_key_def)

lemma foldl_add_key_absorb: "set ns \<subseteq> set ks \<Longrightarrow> foldl add_key ks ns = ks"
  by (induction ns) (simp_all add: add_key_absorb)

lemma foldl_add_key_fresh:
  "distinct ns \<Longrightarrow> set ks \<inter> set ns = {} \<Longrightarrow> foldl add_key ks ns = ks @ ns"
proof (induction ns arbitrary: ks)
  case Nil
  then show ?case by simp
next
  case (Cons n ns)
  have "add_key ks n = ks @ [n]" using Cons.prems(2) by (auto simp: add_key_def)
  moreover have "foldl add_key (ks @ [n]) ns = (ks @ [n]) @ ns"
    using Cons.prems by (intro Cons.IH) auto
  ultimately show ?case by simp
qed

lemma keys_reserve_all:
  "map fst (reserve_all as rt) = foldl add_key (map fst rt) (map fst as)"
proof (induction as arbitrary: rt)
  case Nil
  then show ?case by simp
next
  case (Cons p as)
  obtain algo f where p: "p = (algo, f)" by (cases p)
  show ?case
  proof (cases "map_of rt algo")
    case None
    then show ?thesis by (simp add: p Cons.IH keys_assign)
  next
    case (Some ts)
    then have "(algo, ts) \<in> set rt" by (rule map_of_SomeD)
    then have "algo \<in> set (map fst rt)" by force
    then show ?thesis using Some by (simp add: p Cons.IH add_key_absorb del: set_map)
  qed
qed

lemma time_algos_keys:
  assumes "time_algos as clock sn rn i h = Some h'"
  shows "map fst (total_times h') =
           (if sn then foldl add_key (map fst (total_times h)) (map fst as)
            else map fst (total_times h)) \<and>
         map fst (result_times h') =
           (if rn then foldl add_key (map fst (result_times h)) (map fst as)
            else map fst (result_times h))"
  using assms
proof (induction as arbitrary: h)
  case Nil
  then show ?case by simp
next
  case (Cons p as)
  obtain algo f where p: "p = (algo, f)" by (cases p)
  define h1 where "h1 = (if sn
              then (case map_of (total_times h) algo of
                      None \<Rightarrow> h\<lparr>total_times := assign (total_times h) algo (clock i algo)\<rparr>
                    | Some t \<Rightarrow> h\<lparr>total_times := assign (total_times h) algo (t + clock i algo)\<rparr>)
              else h)"
  define h2 where "h2 = (if rn
              then h1\<lparr>result_times :=
                     assign (result_times h1) algo
                       ((case map_of (result_times h1) algo of None \<Rightarrow> [] | Some ts \<Rightarrow> ts)
                        @ [clock i algo])\<rparr>
              else h1)"
  have rec: "time_algos as clock sn rn i h2 = Some h'"
    using Cons.prems by (auto simp: p h1_def h2_def Let_def split: Option.bind_splits)
  have k1: "map fst (total_times h1) =
      (if sn then add_key (map fst (total_times h)) algo else map fst (total_times h))"
    "result_times h1 = result_times h"
    by (auto simp: h1_def keys_assign split: option.splits)
  have k2: "map fst (result_times h2) =
      (if rn then add_key (map fst (result_times h)) algo else map fst (result_times h))"
    "total_times h2 = total_times h1"
    using k1(2) by (auto simp: h2_def keys_assign)
  show ?case
    using Cons.IH[OF rec] by (simp add: p k1 k2)
qed

subsection \<open>The invariant of the loop over the datasets\<close>

lemma map_of_reserve_all:
  "map_of (reserve_all as rt) a =
     (if a \<in> fst ` set as \<and> map_of rt a = None then Some [] else map_of rt a)"
proof (induction as arbitrary: rt)
  case Nil
  then show ?case by simp
next
  case (Cons p as)
  obtain algo f where p: "p = (algo, f)" by (cases p)
  show ?case
    unfolding p by (auto simp: Cons.IH map_of_assign split: option.splits)
qed

lemma init_harness_inv:
  "times_inv clock 0 (init_harness ds rn) \<and> keys_inv sn rn 0 (init_harness ds rn)"
proof -
  have "map_of (reserve_all sort_algos []) a = (if a \<in> fst ` set sort_algos then Some [] else None)" for a
    by (simp add: map_of_reserve_all)
  then have "\<And>a ts. map_of (reserve_all sort_algos []) a = Some ts \<Longrightarrow> ts = []"
    by (auto split: if_splits)
  moreover have "map fst (reserve_all sort_algos []) = map fst sort_algos"
    using keys_reserve_all[of sort_algos "[]"] foldl_add_key_fresh[of "map fst sort_algos" "[]"]
      sort_algos_distinct by simp
  ultimately show ?thesis by (auto simp: times_inv_def keys_inv_def init_harness_def)
qed

lemma dataset_step_inv:
  assumes "times_inv clock k h" "keys_inv sn rn k h" "k < length (datasets h)"
  shows "\<exists>h'. dataset_step clock sn rn (int k) h = Some h' \<and> datasets h' = datasets h \<and>
           cout h' = cout h @ [Progress (Suc k)] \<and>
           times_inv clock (Suc k) h' \<and> keys_inv sn rn (Suc k) h'"
proof -
  define names where "names = fst ` set sort_algos"
  define R where "R = map_of (result_times h)"
  define T where "T = map_of (total_times h)"
  obtain h' where step: "dataset_step clock sn rn (int k) h = Some h'"
    and ds: "datasets h' = datasets h" and co: "cout h' = cout h @ [Progress (nat (int k + 1))]"
    and T': "map_of (total_times h') =
             (\<lambda>a. if sn \<and> a \<in> names
                  then Some ((case T a of None \<Rightarrow> 0 | Some t \<Rightarrow> t) + clock (int k) a)
                  else T a)"
    and R': "map_of (result_times h') =
             (\<lambda>a. if rn \<and> a \<in> names
                  then Some ((case R a of None \<Rightarrow> [] | Some ts \<Rightarrow> ts) @ [clock (int k) a])
                  else R a)"
    using dataset_step_spec[of "int k" h clock sn rn] assms(3) unfolding names_def R_def T_def
    by auto
  have keysR: "map fst (result_times h) = (if rn then map fst sort_algos else [])"
    and keysT: "map fst (total_times h) = (if sn \<and> 0 < k then map fst sort_algos else [])"
    using assms(2) by (simp_all add: keys_inv_def)
  have "dom R = set (map fst (result_times h))" "dom T = set (map fst (total_times h))"
    by (simp_all add: R_def T_def dom_map_of_conv_image_fst)
  then have domR: "dom R = (if rn then names else {})"
    and domT: "dom T = (if sn \<and> 0 < k then names else {})"
    unfolding keysR keysT by (simp_all add: names_def)
  have lenR: "\<And>a ts. R a = Some ts \<Longrightarrow> length ts = k"
    and sumT: "\<And>a t. T a = Some t \<Longrightarrow> t = (\<Sum>i<k. clock (int i) a)"
    using assms(1) by (auto simp: times_inv_def R_def T_def)
  have r: "length ts = Suc k" if "map_of (result_times h') a = Some ts" for a ts
  proof (cases "rn \<and> a \<in> names")
    case True
    then obtain ts0 where "R a = Some ts0" using domR by auto
    then show ?thesis using that True lenR[of a ts0] by (auto simp: R')
  next
    case False
    then have "R a = Some ts" using that by (auto simp: R' split: if_splits)
    then have "a \<in> dom R" by auto
    then show ?thesis using False domR by (auto split: if_splits)
  qed
  have t: "t = (\<Sum>i<Suc k. clock (int i) a)" if "map_of (total_times h') a = Some t" for a t
  proof (cases "sn \<and> a \<in> names")
    case True
    show ?thesis
    proof (cases "0 < k")
      case k: True
      then obtain t0 where "T a = Some t0" using domT True by auto
      then show ?thesis using that True sumT[of a t0] by (auto simp: T')
    next
      case False
      then have "T a = None" using domT by auto
      then show ?thesis using that True False by (auto simp: T')
    qed
  next
    case False
    then have "T a = Some t" using that by (auto simp: T' split: if_splits)
    then have "a \<in> dom T" by auto
    then show ?thesis using False domT by (auto split: if_splits)
  qed
  have tk: "time_algos sort_algos clock sn rn (int k)
              (h\<lparr>cout := cout h @ [Progress (nat (int k + 1))]\<rparr>) = Some h'"
    using step by (simp add: dataset_step_def)
  have "map fst (result_times h') = (if rn then map fst sort_algos else [])"
    using time_algos_keys[OF tk] keysR by (simp add: foldl_add_key_absorb)
  moreover have "map fst (total_times h') = (if sn \<and> 0 < Suc k then map fst sort_algos else [])"
  proof (cases "sn \<and> 0 < k")
    case True
    then show ?thesis using time_algos_keys[OF tk] keysT by (simp add: foldl_add_key_absorb)
  next
    case False
    then have "map fst (total_times h) = []" using keysT by auto
    then show ?thesis
      using time_algos_keys[OF tk] foldl_add_key_fresh[of "map fst sort_algos" "[]"]
        sort_algos_distinct by simp
  qed
  ultimately have "keys_inv sn rn (Suc k) h'" by (simp add: keys_inv_def)
  moreover have "times_inv clock (Suc k) h'" unfolding times_inv_def using r t by blast
  moreover have "nat (int k + 1) = Suc k" by simp
  ultimately show ?thesis using step ds co by auto
qed

lemma bench_loop_inv:
  assumes "times_inv clock k h" "keys_inv sn rn k h" "k \<le> length (datasets h)"
  shows "\<exists>h'. bench_loop clock sn rn (int (length (datasets h))) (int k) h = Some h' \<and>
           datasets h' = datasets h \<and>
           cout h' = cout h @ map (\<lambda>j. Progress (Suc j)) [k..<length (datasets h)] \<and>
           times_inv clock (length (datasets h)) h' \<and> keys_inv sn rn (length (datasets h)) h'"
  using assms
proof (induction "length (datasets h) - k" arbitrary: k h)
  case 0
  then have "k = length (datasets h)" by simp
  then show ?case using 0 by (subst bench_loop.simps) simp
next
  case (Suc d)
  then have k: "k < length (datasets h)" by simp
  obtain h1 where h1: "dataset_step clock sn rn (int k) h = Some h1" "datasets h1 = datasets h"
    "cout h1 = cout h @ [Progress (Suc k)]" "times_inv clock (Suc k) h1" "keys_inv sn rn (Suc k) h1"
    using dataset_step_inv[OF Suc.prems(1,2) k] by blast
  have unf: "bench_loop clock sn rn (int (length (datasets h))) (int k) h =
               bench_loop clock sn rn (int (length (datasets h1))) (int (Suc k)) h1"
    using k h1(1,2) by (subst bench_loop.simps) (simp add: int_plus_1 del: of_nat_Suc)
  have "\<exists>h'. bench_loop clock sn rn (int (length (datasets h1))) (int (Suc k)) h1 = Some h' \<and>
           datasets h' = datasets h1 \<and>
           cout h' = cout h1 @ map (\<lambda>j. Progress (Suc j)) [Suc k..<length (datasets h1)] \<and>
           times_inv clock (length (datasets h1)) h' \<and> keys_inv sn rn (length (datasets h1)) h'"
    using Suc.hyps(2) k h1 by (intro Suc.hyps(1)) simp_all
  moreover have "[k..<length (datasets h)] = k # [Suc k..<length (datasets h)]"
    using k by (simp add: upt_conv_Cons)
  ultimately show ?case unfolding unf using h1 by auto
qed

subsection \<open>The reports\<close>

lemma banners_append [simp]: "banners (xs @ ys) = banners xs @ banners ys"
  by (simp add: banners_def)

lemma summary_loop_spec:
  "0 \<le> i \<Longrightarrow> num_algos \<le> int (length fts) \<Longrightarrow>
     \<exists>out'. summary_loop fts num_algos nd i out = Some out' \<and> banners out' = banners out"
proof (induction fts num_algos nd i out rule: summary_loop.induct)
  case (1 fts num_algos nd i out)
  show ?case
  proof (cases "i < num_algos")
    case False
    then show ?thesis by (subst summary_loop.simps) simp
  next
    case True
    then have a: "at fts i = Some (fts ! nat i)" using "1.prems" by (simp add: at_def in_bounds_def)
    have "\<exists>out'. summary_loop fts num_algos nd (i + 1)
             (out @ [SummaryEntry (nat (i + 1)) (fst (fts ! nat i)) (snd (fts ! nat i)) nd]) = Some out' \<and>
           banners out' =
             banners (out @ [SummaryEntry (nat (i + 1)) (fst (fts ! nat i)) (snd (fts ! nat i)) nd])"
      using "1.IH"[OF True a refl refl] "1.prems" by simp
    then show ?thesis using True a by (subst summary_loop.simps) (simp add: banners_def)
  qed
qed

lemma results_entries_spec:
  "0 \<le> j \<Longrightarrow> num_algos \<le> int (length fts) \<Longrightarrow>
     \<exists>out'. results_entries fts num_algos j out = Some out' \<and> banners out' = banners out"
proof (induction fts num_algos j out rule: results_entries.induct)
  case (1 fts num_algos j out)
  show ?case
  proof (cases "j < num_algos")
    case False
    then show ?thesis by (subst results_entries.simps) simp
  next
    case True
    then have a: "at fts j = Some (fts ! nat j)" using "1.prems" by (simp add: at_def in_bounds_def)
    have "\<exists>out'. results_entries fts num_algos (j + 1)
             (out @ [ResultEntry (nat (j + 1)) (fst (fts ! nat j)) (snd (fts ! nat j))]) = Some out' \<and>
           banners out' =
             banners (out @ [ResultEntry (nat (j + 1)) (fst (fts ! nat j)) (snd (fts ! nat j))])"
      using "1.IH"[OF True a refl refl] "1.prems" by simp
    then show ?thesis using True a by (subst results_entries.simps) (simp add: banners_def)
  qed
qed

lemma collect_times_spec:
  "0 \<le> i \<Longrightarrow> \<forall>(a, ts) \<in> set rt. i < int (length ts) \<Longrightarrow>
     \<exists>fts'. collect_times rt i fts = Some fts' \<and> length fts' = length fts + length rt"
proof (induction rt arbitrary: fts)
  case Nil
  then show ?case by simp
next
  case (Cons p rt)
  obtain a ts where p: "p = (a, ts)" by (cases p)
  have "at ts i = Some (ts ! nat i)" using Cons.prems p by (simp add: at_def in_bounds_def)
  moreover have "\<exists>fts'. collect_times rt i (fts @ [(a, ts ! nat i)]) = Some fts' \<and>
      length fts' = length (fts @ [(a, ts ! nat i)]) + length rt"
    using Cons.prems by (intro Cons.IH) auto
  ultimately show ?case by (auto simp: p)
qed

lemma results_loop_spec:
  "0 \<le> i \<Longrightarrow> num_algos \<le> int (length rt) \<Longrightarrow> \<forall>(a, ts) \<in> set rt. num_datasets \<le> int (length ts) \<Longrightarrow>
     \<exists>out'. results_loop rt num_algos num_datasets i out = Some out' \<and> banners out' = banners out"
proof (induction rt num_algos num_datasets i out rule: results_loop.induct)
  case (1 rt num_algos num_datasets i out)
  show ?case
  proof (cases "i < num_datasets")
    case False
    then show ?thesis by (subst results_loop.simps) simp
  next
    case True
    have "\<forall>(a, ts) \<in> set rt. i < int (length ts)" using "1.prems"(3) True by fastforce
    then obtain fts where fts: "collect_times rt i [] = Some fts" "length fts = length rt"
      using collect_times_spec[of i rt "[]"] "1.prems"(1) by auto
    obtain out1 where out1: "results_entries (sort_times fts) num_algos 0
        (out @ [DatasetHeader (nat (i + 1))]) = Some out1"
      "banners out1 = banners (out @ [DatasetHeader (nat (i + 1))])"
    proof -
      have "num_algos \<le> int (length (sort_times fts))"
        using "1.prems"(2) fts(2) by (simp add: sort_times_def)
      from results_entries_spec[OF _ this, of 0 "out @ [DatasetHeader (nat (i + 1))]"]
      show ?thesis using that by auto
    qed
    have "\<exists>out'. results_loop rt num_algos num_datasets (i + 1) (out1 @ [Blank]) = Some out' \<and>
           banners out' = banners (out1 @ [Blank])"
      using "1.IH"[OF True fts(1) refl refl out1(1)] "1.prems" by simp
    then show ?thesis
      using True fts(1) out1 by (subst results_loop.simps) (simp add: banners_def)
  qed
qed

subsection \<open>The content of the reports\<close>







lemma length_sort_times [simp]: "length (sort_times xs) = length xs"
  by (simp add: sort_times_def)










section \<open>Properties of the reader\<close>

subsection \<open>\<open>read_in_datasets\<close> returns\<close>




section \<open>Properties of \<open>main\<close>\<close>

lemma render_summary_spec:
  assumes "num_algos \<le> int (length (total_times h))"
  shows "\<exists>out'. render_summary h num_algos nd = Some (h\<lparr>cout := out'\<rparr>) \<and>
           banners out' = banners (cout h) @ [SummaryBanner]"
proof -
  have "num_algos \<le> int (length (sort_times (total_times h)))"
    using assms by (simp add: sort_times_def)
  from summary_loop_spec[OF _ this, of 0 nd "cout h @ [SummaryBanner]"]
  obtain out' where "summary_loop (sort_times (total_times h)) num_algos nd 0 (cout h @ [SummaryBanner])
      = Some out'" "banners out' = banners (cout h @ [SummaryBanner])" by auto
  then show ?thesis by (auto simp: render_summary_def banners_def)
qed

lemma render_summary_empty:
  "0 < num_algos \<Longrightarrow> total_times h = [] \<Longrightarrow> render_summary h num_algos nd = None"
  by (simp add: render_summary_def sort_times_def summary_loop.simps at_def in_bounds_def)

lemma render_results_spec:
  assumes "num_algos \<le> int (length (result_times h))"
    and "\<forall>(a, ts) \<in> set (result_times h). num_datasets \<le> int (length ts)"
  shows "\<exists>out'. render_results h num_algos num_datasets = Some (h\<lparr>cout := out'\<rparr>) \<and>
           banners out' = banners (cout h) @ [ResultsBanner]"
proof -
  from results_loop_spec[OF _ assms, of 0 "cout h @ [ResultsBanner]"]
  obtain out' where "results_loop (result_times h) num_algos num_datasets 0 (cout h @ [ResultsBanner])
      = Some out'" "banners out' = banners (cout h @ [ResultsBanner])" by auto
  then show ?thesis by (auto simp: render_results_def banners_def)
qed

lemma banners_progress [simp]: "banners (map (\<lambda>j. Progress (Suc j)) xs) = []"
  by (induction xs) (simp_all add: banners_def)

lemma main_valid:
  assumes args: "length argv = 1 \<or> (length argv = 2 \<and> (argv ! 1 = ''results'' \<or> argv ! 1 = ''summary''))"
    and rd: "read_in_datasets [] (open_stream stdin) = Some (ds, errs, cin)"
    and sn: "sn = (length argv = 1 \<or> argv ! 1 = ''summary'')"
    and rn: "rn = (length argv = 1 \<or> argv ! 1 = ''results'')"
  shows "if sn \<and> ds = [] then main argv stdin clock = None
         else \<exists>out. main argv stdin clock =
                  Some \<lparr>exit_code = 0, stdout = out, stderr = errs, stdin_after = cin\<rparr> \<and>
                banners out = (if sn then [SummaryBanner] else []) @ (if rn then [ResultsBanner] else [])"
proof -
  define n where "n = length ds"
  obtain h1 where h1: "bench_loop clock sn rn (int n) 0 (init_harness ds rn) = Some h1"
    "cout h1 = map (\<lambda>j. Progress (Suc j)) [0..<n]"
    "times_inv clock n h1" "keys_inv sn rn n h1"
    using bench_loop_inv[of clock 0 "init_harness ds rn" sn rn]
      init_harness_inv[of clock ds rn sn]
    by (auto simp: init_harness_def n_def)
  define h2 where "h2 = h1\<lparr>cout := cout h1 @ [Blank]\<rparr>"
  have b2: "banners (cout h2) = []" by (simp add: h2_def h1(2) banners_def)
  have na: "int (length sort_algos) = 7" by (simp add: sort_algos_eq)
  have flags: "(int (length argv) = 1 \<or> int (length argv) = 2 \<and> argv ! 1 = ''summary'') = sn"
    "(int (length argv) = 1 \<or> int (length argv) = 2 \<and> argv ! 1 = ''results'') = rn"
    using args sn rn by auto
  have noerr: "\<not> (int (length argv) < 1 \<or> 2 < int (length argv))"
    "\<not> (int (length argv) = 2 \<and> argv ! 1 \<noteq> ''results'' \<and> argv ! 1 \<noteq> ''summary'')"
    using args by auto
  have unf: "main argv stdin clock =
      (if sn then render_summary h2 7 (int n) else Some h2) \<bind>
      (\<lambda>h. (if rn then render_results h 7 (int n) else Some h) \<bind>
      (\<lambda>h. Some \<lparr>exit_code = 0, stdout = cout h, stderr = errs, stdin_after = cin\<rparr>))"
    unfolding main_def Let_def
    apply (simp only: noerr flags if_False)
    apply (simp add: rd na h1(1) n_def[symmetric] h2_def)
    done
  have keysT: "map fst (total_times h2) = (if sn \<and> 0 < n then map fst sort_algos else [])"
    and keysR: "map fst (result_times h2) = (if rn then map fst sort_algos else [])"
    using h1(4) by (simp_all add: keys_inv_def h2_def)
  show ?thesis
  proof (cases "sn \<and> ds = []")
    case True
    then have "total_times h2 = []" using keysT by (simp add: n_def)
    then have "render_summary h2 7 (int n) = None" by (intro render_summary_empty) simp_all
    then show ?thesis using True unf by simp
  next
    case False
    have "\<exists>h3. (if sn then render_summary h2 7 (int n) else Some h2) = Some h3 \<and>
            result_times h3 = result_times h2 \<and>
            banners (cout h3) = (if sn then [SummaryBanner] else [])"
    proof (cases sn)
      case True
      then have "0 < n" using False by (simp add: n_def)
      then have "length (total_times h2) = 7"
        using keysT True by (metis length_map sort_algos_names length_Cons list.size(3) eval_nat_numeral(2,3) semiring_norm(26,27,28) numeral_3_eq_3 One_nat_def Suc_numeral)
      then obtain out' where "render_summary h2 7 (int n) = Some (h2\<lparr>cout := out'\<rparr>)"
        "banners out' = banners (cout h2) @ [SummaryBanner]"
        using render_summary_spec[of 7 h2 "int n"] by auto
      then show ?thesis using True b2 by auto
    next
      case False
      then show ?thesis using b2 by simp
    qed
    then obtain h3 where h3: "(if sn then render_summary h2 7 (int n) else Some h2) = Some h3"
      "result_times h3 = result_times h2"
      "banners (cout h3) = (if sn then [SummaryBanner] else [])" by blast
    have "\<exists>h4. (if rn then render_results h3 7 (int n) else Some h3) = Some h4 \<and>
            banners (cout h4) = banners (cout h3) @ (if rn then [ResultsBanner] else [])"
    proof (cases rn)
      case True
      have kr: "map fst (result_times h3) = map fst sort_algos" using keysR True h3(2) by simp
      then have len: "length (result_times h3) = 7"
        by (metis length_map sort_algos_names length_Cons list.size(3) eval_nat_numeral(2,3) semiring_norm(26,27,28) numeral_3_eq_3 One_nat_def Suc_numeral)
      have dist: "distinct (map fst (result_times h3))" using kr sort_algos_distinct by simp
      have "\<forall>(a, ts) \<in> set (result_times h3). int n \<le> int (length ts)"
      proof (clarify)
        fix a ts assume "(a, ts) \<in> set (result_times h3)"
        then have "map_of (result_times h3) a = Some ts" using dist by (rule map_of_is_SomeI[rotated])
        then have "map_of (result_times h1) a = Some ts" using h3(2) by (simp add: h2_def)
        then show "int n \<le> int (length ts)" using h1(3) by (auto simp: times_inv_def)
      qed
      then obtain out' where "render_results h3 7 (int n) = Some (h3\<lparr>cout := out'\<rparr>)"
        "banners out' = banners (cout h3) @ [ResultsBanner]"
        using render_results_spec[of 7 h3 "int n"] len by auto
      then show ?thesis using True by auto
    next
      case False
      then show ?thesis by simp
    qed
    then obtain h4 where h4: "(if rn then render_results h3 7 (int n) else Some h3) = Some h4"
      "banners (cout h4) = banners (cout h3) @ (if rn then [ResultsBanner] else [])" by blast
    have "main argv stdin clock =
        Some \<lparr>exit_code = 0, stdout = cout h4, stderr = errs, stdin_after = cin\<rparr>"
      by (simp add: unf h3(1) h4(1))
    then show ?thesis using False h4(2) h3(3) by auto
  qed
qed

lemma read_in_datasets_empty:
  "read_in_datasets [] (open_stream []) = Some ([], [], \<lparr>buf = [], eofbit = True, failbit = True\<rparr>)"
  by (simp add: read_in_datasets_def getline_def open_stream_def good_def read_lines.simps)

subsection \<open>The extraction loop on whole tokens\<close>

lemma space_not_digit: "is_space c \<Longrightarrow> \<not> is_digit c"
  by (auto simp: is_space_def is_digit_def)

lemma takeWhile_all:
  "\<forall>c\<in>set xs. P c \<Longrightarrow> ys = [] \<or> \<not> P (hd ys) \<Longrightarrow> takeWhile P (xs @ ys) = xs"
  by (cases ys) (simp_all add: takeWhile_append2)

lemma dropWhile_all:
  "\<forall>c\<in>set xs. P c \<Longrightarrow> ys = [] \<or> \<not> P (hd ys) \<Longrightarrow> dropWhile P (xs @ ys) = ys"
  by (cases ys) (simp_all add: dropWhile_append2)

lemma takeWhile_none: "xs \<noteq> [] \<Longrightarrow> \<not> P (hd xs) \<Longrightarrow> takeWhile P (xs @ ys) = []"
  by (cases xs) simp_all

lemma dropWhile_none: "xs \<noteq> [] \<Longrightarrow> \<not> P (hd xs) \<Longrightarrow> dropWhile P (xs @ ys) = xs @ ys"
  by (cases xs) simp_all

lemma unsigned_part_append:
  "t \<noteq> [] \<Longrightarrow>
     (if t @ r \<noteq> [] \<and> (hd (t @ r) = CHR ''-'' \<or> hd (t @ r) = CHR ''+'') then tl (t @ r) else t @ r) =
       unsigned_part t @ r"
  by (cases t) (auto simp: unsigned_part_def)

lemma set_unsigned_part: "set (unsigned_part t) \<subseteq> set t"
  by (cases t) (auto simp: unsigned_part_def)

text \<open>Extraction of a signed integer that stands at the front of the stream, before \<open>r\<close>.\<close>

lemma extract_int_token:
  assumes "good ss" "buf ss = t @ r" "t \<noteq> []" "\<forall>c\<in>set t. \<not> is_space c" "r = [] \<or> is_space (hd r)"
    and "spec_int t = Some x"
  shows "extract_int ss = (ss\<lparr>buf := r, eofbit := (r = []), failbit := False\<rparr>, Some x)"
proof -
  have s: "sentry ss = (ss\<lparr>buf := t @ r\<rparr>, True)"
    using assms(1-4) by (cases t) (auto simp: sentry_def Let_def)
  define body where "body = unsigned_part t"
  have body: "body \<noteq> []" "\<forall>c\<in>set body. is_digit c"
    and val: "x = (if t \<noteq> [] \<and> hd t = CHR ''-'' then - digits_value body else digits_value body)"
      "INT_MIN \<le> x" "x \<le> INT_MAX"
    using assms(6) by (auto simp: spec_int_def Let_def body_def list_all_iff split: if_splits)
  have r: "r = [] \<or> \<not> is_digit (hd r)" using assms(5) space_not_digit by blast
  have tw: "takeWhile is_digit (body @ r) = body" using body(2) r by (rule takeWhile_all)
  have dw: "dropWhile is_digit (body @ r) = r" using body(2) r by (rule dropWhile_all)
  obtain c t' where t: "t = c # t'" using assms(3) by (cases t) auto
  show ?thesis
  proof (cases "c = CHR ''-'' \<or> c = CHR ''+''")
    case True
    then have b: "body = t'" by (auto simp: body_def unsigned_part_def t)
    show ?thesis
      unfolding extract_int_def s
      using True body val tw dw
      by (auto simp: Let_def t b simp del: dropWhile_eq_Nil_conv)
  next
    case False
    then have b: "body = c # t'" by (auto simp: body_def unsigned_part_def t)
    have tw': "takeWhile is_digit (c # t' @ r) = c # t'" using tw by (simp only: b append_Cons)
    have dw': "dropWhile is_digit (c # t' @ r) = r" using dw by (simp only: b append_Cons)
    show ?thesis
      unfolding extract_int_def s
      using False body val
      by (simp add: Let_def t b tw' dw' del: dropWhile_eq_Nil_conv takeWhile.simps dropWhile.simps)
  qed
qed

text \<open>Extraction at a token that has no digit after its optional sign.\<close>

lemma extract_int_reject:
  assumes "good ss" "buf ss = t @ r" "t \<noteq> []" "\<forall>c\<in>set t. \<not> is_space c"
    and "unsigned_part t \<noteq> []" "\<not> is_digit (hd (unsigned_part t))"
  shows "extract_int ss = (ss\<lparr>buf := unsigned_part t @ r, eofbit := False, failbit := True\<rparr>, None)"
proof -
  have s: "sentry ss = (ss\<lparr>buf := t @ r\<rparr>, True)"
    using assms(1-4) by (cases t) (auto simp: sentry_def Let_def)
  define body where "body = unsigned_part t"
  have body: "body \<noteq> []" "\<not> is_digit (hd body)" using assms(5,6) by (simp_all add: body_def)
  have tw: "takeWhile is_digit (body @ r) = []" using body by (rule takeWhile_none)
  have dw: "dropWhile is_digit (body @ r) = body @ r" using body by (rule dropWhile_none)
  obtain c t' where t: "t = c # t'" using assms(3) by (cases t) auto
  show ?thesis
  proof (cases "c = CHR ''-'' \<or> c = CHR ''+''")
    case True
    then have b: "body = t'" by (auto simp: body_def unsigned_part_def t)
    show ?thesis
      unfolding extract_int_def s body_def[symmetric]
      using True body tw dw
      by (auto simp: Let_def t b simp del: dropWhile_eq_Nil_conv)
  next
    case False
    then have b: "body = c # t'" by (auto simp: body_def unsigned_part_def t)
    have tw': "takeWhile is_digit (c # t' @ r) = []" using tw by (simp only: b append_Cons)
    have dw': "dropWhile is_digit (c # t' @ r) = c # t' @ r" using dw by (simp only: b append_Cons)
    show ?thesis
      unfolding extract_int_def s body_def[symmetric]
      using False body
      by (simp add: Let_def t b tw' dw' del: dropWhile_eq_Nil_conv takeWhile.simps dropWhile.simps)
  qed
qed

lemma extract_string_token:
  assumes "good ss" "buf ss = b @ r" "b \<noteq> []" "\<forall>c\<in>set b. \<not> is_space c" "r = [] \<or> is_space (hd r)"
  shows "extract_string ss = (ss\<lparr>buf := r, eofbit := (r = [])\<rparr>, b)"
proof -
  have s: "sentry ss = (ss\<lparr>buf := b @ r\<rparr>, True)"
    using assms(1-4) by (cases b) (auto simp: sentry_def Let_def)
  have r: "r = [] \<or> \<not> \<not> is_space (hd r)" using assms(5) by simp
  have tw: "takeWhile (\<lambda>c. \<not> is_space c) (b @ r) = b" using assms(4) r by (rule takeWhile_all)
  have dw: "dropWhile (\<lambda>c. \<not> is_space c) (b @ r) = r" using assms(4) r by (rule dropWhile_all)
  show ?thesis
    unfolding extract_string_def s by (simp add: Let_def tw dw del: dropWhile_eq_Nil_conv)
qed

lemma extract_int_at_end:
  assumes "eofbit ss \<or> (good ss \<and> dropWhile is_space (buf ss) = [])"
  shows "\<exists>ss'. extract_int ss = (ss', None) \<and> eofbit ss'"
  using assms by (auto simp: extract_int_def sentry_def good_def Let_def)

lemma sentry_skips_space:
  "good ss \<Longrightarrow> sentry (ss\<lparr>buf := dropWhile is_space (buf ss)\<rparr>) = sentry ss"
  by (simp add: sentry_def good_def Let_def)

lemma extract_int_skips_space:
  "good ss \<Longrightarrow> extract_int ss = extract_int (ss\<lparr>buf := dropWhile is_space (buf ss)\<rparr>)"
  unfolding extract_int_def by (simp only: sentry_skips_space)

lemma spec_tokens_Nil: "dropWhile is_space s = [] \<Longrightarrow> spec_tokens s = []"
  by (subst spec_tokens.simps) simp

lemma spec_tokens_Cons:
  "dropWhile is_space s \<noteq> [] \<Longrightarrow>
     spec_tokens s = takeWhile (\<lambda>c. \<not> is_space c) (dropWhile is_space s) #
                     spec_tokens (dropWhile (\<lambda>c. \<not> is_space c) (dropWhile is_space s))"
  by (subst spec_tokens.simps) (simp add: Let_def)

lemma parse_tokens_spec:
  assumes "\<forall>t\<in>set (spec_tokens (buf ss)). plain_token t"
    and "\<not> failbit ss" and "eofbit ss \<longrightarrow> buf ss = []"
  shows "parse_tokens ss n pos d c e =
           (d @ fst (spec_entries n pos (spec_tokens (buf ss))),
            c @ snd (spec_entries n pos (spec_tokens (buf ss))),
            e \<or> snd (spec_entries n pos (spec_tokens (buf ss))) \<noteq> [])"
  using assms
proof (induction "length (buf ss)" arbitrary: ss pos d c e rule: less_induct)
  case less
  define s' where "s' = dropWhile is_space (buf ss)"
  show ?case
  proof (cases "s' = []")
    case True
    then have "eofbit ss \<or> (good ss \<and> dropWhile is_space (buf ss) = [])"
      using less.prems by (auto simp: good_def s'_def)
    from extract_int_at_end[OF this] obtain ss' where
      ei: "extract_int ss = (ss', None)" "eofbit ss'" by blast
    have "spec_tokens (buf ss) = []" using True by (simp add: spec_tokens_Nil s'_def)
    then show ?thesis using ei by (subst parse_tokens.simps) simp
  next
    case False
    then have g: "good ss" using less.prems by (auto simp: good_def s'_def)
    define t where "t = takeWhile (\<lambda>c. \<not> is_space c) s'"
    define r where "r = dropWhile (\<lambda>c. \<not> is_space c) s'"
    have hd: "\<not> is_space (hd s')" using False unfolding s'_def by (rule hd_dropWhile)
    have s': "s' = t @ r" by (simp add: t_def r_def)
    have t: "t \<noteq> []" "\<forall>c\<in>set t. \<not> is_space c"
      using False hd by (cases s'; auto simp: t_def dest: set_takeWhileD)+
    have r: "r = [] \<or> is_space (hd r)"
      using hd_dropWhile[of "\<lambda>c. \<not> is_space c" s'] by (auto simp: r_def)
    have toks: "spec_tokens (buf ss) = t # spec_tokens r"
      using False by (simp add: spec_tokens_Cons s'_def t_def r_def)
    have plain: "plain_token t" "\<forall>t\<in>set (spec_tokens r). plain_token t"
      using less.prems(1) by (simp_all add: toks)
    have len: "length r < length (buf ss)"
    proof -
      have "length r < length s'" unfolding r_def using False hd by (rule token_rest_shorter)
      moreover have "length s' \<le> length (buf ss)" by (simp add: s'_def length_dropWhile_le)
      ultimately show ?thesis by simp
    qed
    let ?ss = "ss\<lparr>buf := s'\<rparr>"
    have g': "good ?ss" "buf ?ss = t @ r" using g s' by (simp_all add: good_def)
    have skip: "extract_int ss = extract_int ?ss"
      using extract_int_skips_space[OF g] by (simp add: s'_def)
    show ?thesis
    proof (cases "spec_int t")
      case (Some x)
      let ?ss1 = "ss\<lparr>buf := r, eofbit := (r = []), failbit := False\<rparr>"
      have ei: "extract_int ss = (?ss1, Some x)"
        using extract_int_token[OF g' t r Some] skip by simp
      have step: "parse_tokens ss n pos d c e = parse_tokens ?ss1 n (pos + 1) (d @ [x]) c e"
        using ei by (subst parse_tokens.simps) simp
      have ih: "parse_tokens ?ss1 n (pos + 1) (d @ [x]) c e =
                  ((d @ [x]) @ fst (spec_entries n (pos + 1) (spec_tokens r)),
                   c @ snd (spec_entries n (pos + 1) (spec_tokens r)),
                   e \<or> snd (spec_entries n (pos + 1) (spec_tokens r)) \<noteq> [])"
        using less.hyps[of ?ss1 "pos + 1" "d @ [x]" c e] len plain(2) by simp
      show ?thesis
        unfolding step ih toks using Some by (simp add: split_beta)
    next
      case None
      then have rej: "unsigned_part t \<noteq> []" "\<not> is_digit (hd (unsigned_part t))"
        using plain(1) by (simp_all add: plain_token_def)
      let ?b = "unsigned_part t"
      let ?ss1 = "ss\<lparr>buf := ?b @ r, eofbit := False, failbit := True\<rparr>"
      let ?ss2 = "ss\<lparr>buf := ?b @ r, eofbit := False, failbit := False\<rparr>"
      let ?ss3 = "ss\<lparr>buf := r, eofbit := (r = []), failbit := False\<rparr>"
      have ei: "extract_int ss = (?ss1, None)"
        using extract_int_reject[OF g' t rej] skip by simp
      have cl: "clear ?ss1 = ?ss2" by (simp add: clear_def)
      have b: "\<forall>c\<in>set ?b. \<not> is_space c" using t(2) set_unsigned_part[of t] by blast
      have es: "extract_string ?ss2 = (?ss3, ?b)"
        using extract_string_token[of ?ss2 ?b r] rej(1) b r by (simp add: good_def)
      have step: "parse_tokens ss n pos d c e =
                    parse_tokens ?ss3 n (pos + 1) d (c @ [ParseError n pos]) True"
        using ei cl es by (subst parse_tokens.simps) (simp add: Let_def)
      have ih: "parse_tokens ?ss3 n (pos + 1) d (c @ [ParseError n pos]) True =
                  (d @ fst (spec_entries n (pos + 1) (spec_tokens r)),
                   (c @ [ParseError n pos]) @ snd (spec_entries n (pos + 1) (spec_tokens r)),
                   True \<or> snd (spec_entries n (pos + 1) (spec_tokens r)) \<noteq> [])"
        using less.hyps[of ?ss3 "pos + 1" d "c @ [ParseError n pos]" True] len plain(2) by simp
      show ?thesis
        unfolding step ih toks using None by (simp add: split_beta)
    qed
  qed
qed

text \<open>
  A non-empty line of whitespace only, processed while the input has not reached its end:
  no token is found, an empty dataset is appended, nothing is reported, and the loop goes
  on with the next line. An empty \<open>data_str\<close> ends the loop.
\<close>

lemma whitespace_line_step:
  assumes "ws \<noteq> []" and "\<forall>c\<in>set ws. is_space c" and "\<not> eofbit cin"
  shows "parse_tokens (open_stream ws) linecount 1 [] cerr errs = ([], cerr, errs) \<and>
         read_lines cin ws linecount ds cerr errs =
           (case getline cin ws of
              (cin', line') \<Rightarrow> read_lines cin' line' (linecount + 1) (ds @ [[]]) cerr errs) \<and>
         read_lines cin [] linecount ds cerr errs = Some (ds, cerr, errs, cin)"
proof -
  have "dropWhile is_space ws = []" using assms(2) by simp
  then have toks: "spec_tokens ws = []" by (rule spec_tokens_Nil)
  have pt: "parse_tokens (open_stream ws) linecount 1 [] cerr errs = ([], cerr, errs)"
    using parse_tokens_spec[of "open_stream ws" linecount 1 "[]" cerr errs]
    by (simp add: open_stream_def toks)
  have "read_lines cin ws linecount ds cerr errs =
           (case getline cin ws of
              (cin', line') \<Rightarrow> read_lines cin' line' (linecount + 1) (ds @ [[]]) cerr errs)"
    using assms(1,3) pt by (subst read_lines.simps) simp
  moreover have "read_lines cin [] linecount ds cerr errs = Some (ds, cerr, errs, cin)"
    by (subst read_lines.simps) simp
  ultimately show ?thesis using pt by simp
qed

subsection \<open>The output of a run\<close>


section \<open>The claims\<close>

text \<open>
  Claim C1. Each of the seven registered sorting algorithms, invoked on (a copy of) any
  finite sequence of integers \<open>S\<close>, the empty and the one-element sequence included, stays
  within its vector and leaves the copy, at return, a permutation of \<open>S\<close> sorted in
  non-decreasing order.
\<close>

theorem sort_algos_sort:
  assumes "(name, f) \<in> set sort_algos"
  shows "\<exists>v'. f S = Some v' \<and> mset v' = mset S \<and> sorted v'"
  using sort_algos_correct[OF assms, of S] by blast

theorem sort_algos_sort_witness:
  "(''Heap Sort'', heap_sort) \<in> set sort_algos \<and>
   (\<exists>v'. heap_sort [3, 1, 2] = Some v' \<and> mset v' = mset [3, 1, 2] \<and> sorted v')"
proof -
  have h: "(''Heap Sort'', heap_sort) \<in> set sort_algos" by (simp add: sort_algos_eq)
  show ?thesis using h sort_algos_sort[OF h, of "[3, 1, 2]"] by blast
qed

text \<open>
  Claim C10 (not met by the code). A whitespace-only line that is the last line of the
  input and is not terminated by a newline is read by \<open>std::getline\<close>, which sets
  \<open>eofbit\<close>; the loop condition \<open>!std::cin.eof()\<close> fails before the line is processed, and no
  empty dataset is appended for it. This is the defect of claim C5. A whitespace-only line
  that ends with its newline is treated as the claim says: it gives an empty dataset, no
  diagnostic, and the reading goes on.
\<close>

theorem unterminated_whitespace_line_dropped:
  "read_in_datasets [] (open_stream (''1 2'' @ [newline] @ '' '')) =
     Some ([[1, 2]], [], \<lparr>buf = [], eofbit = True, failbit = False\<rparr>) \<and>
   read_in_datasets [] (open_stream '' '') =
     Some ([], [], \<lparr>buf = [], eofbit = True, failbit = False\<rparr>) \<and>
   read_in_datasets [] (open_stream (''1 2'' @ [newline] @ '' '' @ [newline])) =
     Some ([[1, 2], []], [], \<lparr>buf = [], eofbit = True, failbit = True\<rparr>) \<and>
   read_in_datasets [] (open_stream (''1 2'' @ [newline] @ '' '' @ [newline] @ ''5'' @ [newline])) =
     Some ([[1, 2], [], [5]], [], \<lparr>buf = [], eofbit = True, failbit = True\<rparr>)"
  by code_simp

text \<open>
  Claim C2 (not met by the code). With no dataset in the input and the summary requested
  (argument \<open>summary\<close>, or no argument), \<open>total_times\<close> is empty, so \<open>fast_to_slow\<close> is
  empty, and the summary loop, which runs \<open>num_algos = 7\<close> times, reads \<open>fast_to_slow[0]\<close>
  out of range: the run is undefined.
\<close>

theorem summary_without_datasets:
  "read_in_datasets [] (open_stream []) =
     Some ([], [], \<lparr>buf = [], eofbit = True, failbit = True\<rparr>) \<and>
   summary_loop (sort_times []) (int (length sort_algos)) 0 0 out = None \<and>
   main [prog, ''summary''] [] clock = None \<and>
   main [prog] [] clock = None"
proof -
  have "summary_loop (sort_times []) (int (length sort_algos)) 0 0 out = None"
    by (simp add: sort_times_def sort_algos_eq summary_loop.simps at_def in_bounds_def)
  moreover have "main [prog, ''summary''] [] clock = None"
    using main_valid[OF _ read_in_datasets_empty refl refl, of "[prog, ''summary'']" clock] by simp
  moreover have "main [prog] [] clock = None"
    using main_valid[OF _ read_in_datasets_empty refl refl, of "[prog]" clock] by simp
  ultimately show ?thesis using read_in_datasets_empty by simp
qed

text \<open>
  Claim C3. Invoking any of the seven sorting algorithms through the harness leaves the
  dataset list of the harness unchanged: the algorithm is called with \<open>datasets[i]\<close> by
  value, it stays within its copy, and nothing is written back. This holds for one
  invocation and for the whole loop over the datasets.
\<close>

theorem harness_preserves_datasets:
  assumes "(algo, f) \<in> set sort_algos" and "0 \<le> i" and "i < int (length (datasets h))"
  shows "(\<exists>h'. time_algos [(algo, f)] clock summary_needed results_needed i h = Some h' \<and>
               datasets h' = datasets h) \<and>
         (\<exists>h'. bench_loop clock summary_needed results_needed (int (length (datasets h))) 0 h =
                 Some h' \<and>
               datasets h' = datasets h)"
proof -
  have "\<exists>h'. time_algos [(algo, f)] clock summary_needed results_needed i h = Some h' \<and>
               datasets h' = datasets h"
    using time_algos_spec[of "[(algo, f)]" i h clock summary_needed results_needed] assms by auto
  moreover have "\<exists>h'. bench_loop clock summary_needed results_needed (int (length (datasets h))) 0 h =
                 Some h' \<and>
               datasets h' = datasets h"
    by (rule bench_loop_datasets) simp_all
  ultimately show ?thesis by blast
qed

theorem harness_preserves_datasets_witness:
  "(''Quick Sort'', quick_sort) \<in> set sort_algos \<and> (0::int) \<le> 0 \<and>
   (0::int) < int (length (datasets (init_harness [[2, 1]] True))) \<and>
   (\<exists>h'. time_algos [(''Quick Sort'', quick_sort)] (\<lambda>i a. 5) True True 0
           (init_harness [[2, 1]] True) = Some h' \<and>
         datasets h' = [[2, 1]]) \<and>
   (\<exists>h'. bench_loop (\<lambda>i a. 5) True True 1 0 (init_harness [[2, 1]] True) = Some h' \<and>
         datasets h' = [[2, 1]])"
proof -
  have h: "(''Quick Sort'', quick_sort) \<in> set sort_algos" "(0::int) \<le> 0"
    "(0::int) < int (length (datasets (init_harness [[2, 1]] True)))"
    by (simp_all add: sort_algos_eq init_harness_def)
  show ?thesis
    using h harness_preserves_datasets[OF h, of "\<lambda>i a. 5" True True]
    by (simp add: init_harness_def)
qed

text \<open>
  Claim C4, as the code meets it. A non-empty line that \<open>read_in_datasets\<close> processes, all
  of whose whitespace-delimited tokens are either signed integers in the range of \<open>int\<close> or
  start, after an optional sign, with a character that is not a digit, is read as the
  claim says: the integers are appended in order to the dataset of the line, every other
  token is reported with the line number and its 1-based position and skipped as a whole,
  and the rest of the line is read. The input \<open>1 2 x 3\<close> with its newline gives the dataset
  \<open>[1, 2, 3]\<close> and one diagnostic for line 1, position 3 (followed by the blank separator).
\<close>

theorem line_tokens_parsed:
  assumes "\<not> eofbit cin" and "line \<noteq> []" and "\<forall>t\<in>set (spec_tokens line). plain_token t"
  shows "parse_tokens (open_stream line) linecount 1 [] cerr errs =
           (fst (spec_line linecount line), cerr @ snd (spec_line linecount line),
            errs \<or> snd (spec_line linecount line) \<noteq> []) \<and>
         read_lines cin line linecount ds cerr errs =
           (case getline cin line of
              (cin', line') \<Rightarrow>
                read_lines cin' line' (linecount + 1) (ds @ [fst (spec_line linecount line)])
                  (cerr @ snd (spec_line linecount line))
                  (errs \<or> snd (spec_line linecount line) \<noteq> [])) \<and>
         read_in_datasets [] (open_stream (''1 2 x 3'' @ [newline])) =
           Some ([[1, 2, 3]], [ParseError 1 3, BlankErr],
                 \<lparr>buf = [], eofbit = True, failbit = True\<rparr>)"
proof -
  have pt: "parse_tokens (open_stream line) linecount 1 [] cerr errs =
           (fst (spec_line linecount line), cerr @ snd (spec_line linecount line),
            errs \<or> snd (spec_line linecount line) \<noteq> [])"
    using parse_tokens_spec[of "open_stream line" linecount 1 "[]" cerr errs] assms(3)
    by (simp add: open_stream_def spec_line_def)
  have "read_lines cin line linecount ds cerr errs =
           (case getline cin line of
              (cin', line') \<Rightarrow>
                read_lines cin' line' (linecount + 1) (ds @ [fst (spec_line linecount line)])
                  (cerr @ snd (spec_line linecount line))
                  (errs \<or> snd (spec_line linecount line) \<noteq> []))"
    using assms(1,2) pt by (subst read_lines.simps) simp
  moreover have "read_in_datasets [] (open_stream (''1 2 x 3'' @ [newline])) =
           Some ([[1, 2, 3]], [ParseError 1 3, BlankErr],
                 \<lparr>buf = [], eofbit = True, failbit = True\<rparr>)"
    by code_simp
  ultimately show ?thesis using pt by simp
qed

theorem line_tokens_parsed_witness:
  "spec_line 1 ''1 2 x 3'' = ([1, 2, 3], [ParseError 1 3]) \<and>
   parse_tokens (open_stream ''1 2 x 3'') 1 1 [] [] False = ([1, 2, 3], [ParseError 1 3], True) \<and>
   read_lines (open_stream []) ''1 2 x 3'' 1 [] [] False =
     Some ([[1, 2, 3]], [ParseError 1 3], True, \<lparr>buf = [], eofbit = True, failbit = True\<rparr>)"
proof -
  have h: "\<not> eofbit (open_stream [])" "''1 2 x 3'' \<noteq> []"
    "\<forall>t\<in>set (spec_tokens ''1 2 x 3''). plain_token t"
    by code_simp+
  have sl: "spec_line 1 ''1 2 x 3'' = ([1, 2, 3], [ParseError 1 3])" by code_simp
  have rl: "\<And>n ds c e. read_lines \<lparr>buf = [], eofbit = True, failbit = True\<rparr> [] n ds c e =
     Some (ds, c, e, \<lparr>buf = [], eofbit = True, failbit = True\<rparr>)"
    by (subst read_lines.simps) simp
  show ?thesis
    using h sl line_tokens_parsed[OF h, of 1 "[]" False "[]"]
    by (simp add: getline_def open_stream_def good_def rl)
qed

text \<open>
  The claim as it is written fails on a token that starts with digits and goes on with
  other characters: \<open>operator>>\<close> extracts the digits as an integer and leaves the rest in the
  stream, so \<open>12x\<close> yields the element 12 and a diagnostic for position 2, where the
  specification has no element and a diagnostic for position 1.
\<close>

theorem digit_prefix_token_split:
  "parse_tokens (open_stream ''12x'') 1 1 [] [] False = ([12], [ParseError 1 2], True) \<and>
   spec_line 1 ''12x'' = ([], [ParseError 1 1]) \<and>
   parse_tokens (open_stream ''12x'') 1 1 [] [] False \<noteq>
     (fst (spec_line 1 ''12x''), snd (spec_line 1 ''12x''), True)"
  by code_simp

text \<open>
  Claim C5 (not met by the code). A last line that is not terminated by a newline is read
  by \<open>std::getline\<close>, which sets \<open>eofbit\<close>; the loop condition \<open>!std::cin.eof()\<close> then fails
  before the line is processed, and the line produces no dataset. With the newline the
  same line produces its dataset, and an empty line after two dataset lines ends the
  reading with exactly two datasets and the later lines left in the stream.
\<close>

theorem unterminated_last_line_dropped:
  "read_in_datasets [] (open_stream (''1 2'' @ [newline] @ ''3 4'')) =
     Some ([[1, 2]], [], \<lparr>buf = [], eofbit = True, failbit = False\<rparr>) \<and>
   read_in_datasets [] (open_stream (''1 2'' @ [newline] @ ''3 4'' @ [newline])) =
     Some ([[1, 2], [3, 4]], [], \<lparr>buf = [], eofbit = True, failbit = True\<rparr>) \<and>
   read_in_datasets [] (open_stream (''1 2'' @ [newline] @ ''3 4'' @ [newline, newline] @ ''5'' @ [newline])) =
     Some ([[1, 2], [3, 4]], [], \<lparr>buf = ''5'' @ [newline], eofbit = False, failbit = False\<rparr>)"
  by code_simp



text \<open>
  Claim C7. The loop over the datasets keeps the invariant \<open>times_inv\<close>: after \<open>k\<close>
  datasets, every name present in \<open>result_times\<close> has a list of \<open>k\<close> durations, and every
  name present in \<open>total_times\<close> has the sum of the \<open>k\<close> durations recorded for it. The
  invariant holds before the first dataset, each dataset-processing step takes it from
  \<open>k\<close> to \<open>k + 1\<close>, and so it holds when the loop ends. (\<open>keys_inv\<close>, which says which names
  are present, is needed for the step and is kept with it.)
\<close>

theorem harness_invariant:
  "times_inv clock 0 (init_harness ds results_needed) \<and>
   keys_inv summary_needed results_needed 0 (init_harness ds results_needed) \<and>
   (times_inv clock k h \<and> keys_inv summary_needed results_needed k h \<and> k < length (datasets h) \<longrightarrow>
      (\<exists>h'. dataset_step clock summary_needed results_needed (int k) h = Some h' \<and>
            times_inv clock (Suc k) h' \<and> keys_inv summary_needed results_needed (Suc k) h')) \<and>
   (\<exists>h'. bench_loop clock summary_needed results_needed (int (length ds)) 0
           (init_harness ds results_needed) = Some h' \<and>
         times_inv clock (length ds) h' \<and> keys_inv summary_needed results_needed (length ds) h')"
proof -
  have "\<exists>h'. bench_loop clock summary_needed results_needed (int (length ds)) 0
           (init_harness ds results_needed) = Some h' \<and>
         times_inv clock (length ds) h' \<and> keys_inv summary_needed results_needed (length ds) h'"
    using bench_loop_inv[of clock 0 "init_harness ds results_needed" summary_needed results_needed]
      init_harness_inv[of clock ds results_needed summary_needed]
    by (auto simp: init_harness_def)
  then show ?thesis using init_harness_inv dataset_step_inv by blast
qed

theorem harness_invariant_witness:
  "times_inv (\<lambda>i a. 5) 0 (init_harness [[2, 1]] True) \<and>
   keys_inv True True 0 (init_harness [[2, 1]] True) \<and>
   (0::nat) < length (datasets (init_harness [[2, 1]] True)) \<and>
   (\<exists>h'. dataset_step (\<lambda>i a. 5) True True (int 0) (init_harness [[2, 1]] True) = Some h' \<and>
         times_inv (\<lambda>i a. 5) (Suc 0) h' \<and> keys_inv True True (Suc 0) h')"
proof -
  have "(0::nat) < length (datasets (init_harness [[2, 1]] True))"
    by (simp add: init_harness_def)
  then show ?thesis
    using harness_invariant[of "\<lambda>i a. 5" "[[2, 1]]" True True 0 "init_harness [[2, 1]] True"]
    by blast
qed



text \<open>
  Claim C9. Each of the seven sorting functions returns on every finite sequence of
  integers, without leaving its vector: the recursive helpers \<open>merge_sort_sublist\<close>,
  \<open>quick_sort_sublist\<close> and \<open>max_heapify\<close> and every loop are total functions (each
  definition above comes with its termination proof), and the result is never \<open>None\<close>.
  On the empty sequence, where \<open>merge_sort\<close> and \<open>quick_sort\<close> pass the end index
  \<open>size - 1 = -1\<close>, and on a one-element sequence the functions return the sequence as it is.
\<close>

theorem sort_algos_total:
  assumes "(name, f) \<in> set sort_algos"
  shows "(\<exists>v'. f S = Some v') \<and> f [] = Some [] \<and> f [x] = Some [x] \<and>
         merge_sort_sublist [] 0 (- 1) = Some [] \<and> quick_sort_sublist [] 0 (- 1) = Some []"
proof -
  have "\<exists>v'. f S = Some v'" using sort_algos_correct[OF assms, of S] by blast
  moreover have "f [] = Some []" using sort_algos_correct[OF assms, of "[]"] by auto
  moreover have "f [x] = Some [x]" using sort_algos_correct[OF assms, of "[x]"] by auto
  moreover have "merge_sort_sublist [] 0 (- 1) = Some []" by (simp add: merge_sort_sublist.simps)
  moreover have "quick_sort_sublist [] 0 (- 1) = Some []" by (simp add: quick_sort_sublist.simps)
  ultimately show ?thesis by blast
qed

theorem sort_algos_total_witness:
  "(''Merge Sort'', merge_sort) \<in> set sort_algos \<and>
   (\<exists>v'. merge_sort [2, 1] = Some v') \<and> merge_sort [] = Some [] \<and> merge_sort [5] = Some [5] \<and>
   merge_sort_sublist [] 0 (- 1) = Some [] \<and> quick_sort_sublist [] 0 (- 1) = Some []"
proof -
  have h: "(''Merge Sort'', merge_sort) \<in> set sort_algos" by (simp add: sort_algos_eq)
  show ?thesis using h sort_algos_total[OF h, of "[2, 1]" 5] by blast
qed

end
